theory Spec2Isabelle
  imports Main "HOL-Library.Word"
begin

unbundle bit_operations_syntax

section \<open>Errors raised while a module is elaborated\<close>

text \<open>
  The classes of \<^verbatim>\<open>liteeth/mac/crc.py\<close> describe hardware: their constructors run
  once, as Python, and build the logic; the logic then runs cycle by cycle. A constructor
  can raise; the model returns the exception as a value.
\<close>

datatype py_error = IndexError | TypeError

section \<open>LiteEthMACCRCEngine\<close>

text \<open>
  The identifiers \<^verbatim>\<open>("state", i)\<close> and \<^verbatim>\<open>("din", i)\<close> that the constructor collects
  for every bit of the next CRC value.
\<close>

datatype sym = State nat | Din nat

text \<open>
  \<^verbatim>\<open>_optimize_eq\<close>: an ordered dictionary counts the occurrences of every identifier,
  in the order of first occurrence; the identifiers with an odd count are kept.
\<close>

fun odict_count :: "(sym \<times> nat) list \<Rightarrow> sym \<Rightarrow> (sym \<times> nat) list" where
  "odict_count [] e = [(e, 1)]"
| "odict_count ((k, v) # d) e =
     (if k = e then (k, v + 1) # d else (k, v) # odict_count d e)"

definition optimize_eq :: "sym list \<Rightarrow> sym list" where
  "optimize_eq l =
     map fst (filter (\<lambda>(key, val). val mod 2 \<noteq> 0) (foldl odict_count [] l))"

text \<open>\<^verbatim>\<open>taps = [x for x in range(width) if (1 << x) & polynom]\<close>\<close>

definition taps :: "nat \<Rightarrow> int \<Rightarrow> nat list" where
  "taps width polynom = filter (\<lambda>x. push_bit x 1 AND polynom \<noteq> 0) [0..<width]"

text \<open>
  One round of the outer loop, for data bit \<open>i\<close>. \<^verbatim>\<open>curval.pop()\<close> raises IndexError
  on an empty list; the rows \<open>0 .. width-2\<close> of what is left are extended by the feedback
  at a tap and optimised; the feedback becomes the new row 0.
\<close>

definition engine_round :: "nat \<Rightarrow> nat list \<Rightarrow> sym list list \<Rightarrow> nat \<Rightarrow> py_error + sym list list" where
  "engine_round width tps curval i =
     (if curval = [] then Inl IndexError
      else let feedback = last curval @ [Din i];
               popped = butlast curval
           in Inr (feedback #
                   map (\<lambda>j. optimize_eq (popped ! j @ (if j + 1 \<in> set tps then feedback else [])))
                       [0..<width - 1]))"

fun engine_rounds :: "nat \<Rightarrow> nat list \<Rightarrow> nat list \<Rightarrow> sym list list \<Rightarrow> py_error + sym list list" where
  "engine_rounds width tps [] curval = Inr curval"
| "engine_rounds width tps (i # rest) curval =
     (case engine_round width tps curval i of
        Inl e \<Rightarrow> Inl e
      | Inr c \<Rightarrow> engine_rounds width tps rest c)"

definition engine_curval :: "nat \<Rightarrow> nat \<Rightarrow> int \<Rightarrow> py_error + sym list list" where
  "engine_curval data_width width polynom =
     engine_rounds width (taps width polynom) [0..<data_width]
       (map (\<lambda>i. [State i]) [0..<width])"

text \<open>
  The logic: bit \<open>i\<close> of \<^verbatim>\<open>next\<close> is \<^verbatim>\<open>reduce(xor, xors)\<close> over the bits of
  \<^verbatim>\<open>last\<close> and \<^verbatim>\<open>data\<close> that row \<open>i\<close> names. \<^verbatim>\<open>reduce\<close> without an initial value
  raises TypeError on an empty sequence, and nests to the left otherwise.
\<close>

datatype expr = LastBit nat | DataBit nat | Xor expr expr

fun signal_of :: "sym \<Rightarrow> expr" where
  "signal_of (State n) = LastBit n"
| "signal_of (Din n) = DataBit n"

fun reduce_xor :: "expr list \<Rightarrow> py_error + expr" where
  "reduce_xor [] = Inl TypeError"
| "reduce_xor (x # xs) = Inr (foldl Xor x xs)"

fun collect :: "(py_error + 'a) list \<Rightarrow> py_error + 'a list" where
  "collect [] = Inr []"
| "collect (Inl e # _) = Inl e"
| "collect (Inr x # rest) = (case collect rest of Inl e \<Rightarrow> Inl e | Inr xs \<Rightarrow> Inr (x # xs))"

text \<open>
  The constructor first makes the signals \<^verbatim>\<open>data = Signal(data_width)\<close>,
  \<^verbatim>\<open>last = Signal(width)\<close> and \<^verbatim>\<open>next = Signal(width)\<close>. A signal needs at least one
  bit: a width of 0 is refused with TypeError, before anything else is computed.
\<close>

definition LiteEthMACCRCEngine :: "nat \<Rightarrow> nat \<Rightarrow> int \<Rightarrow> py_error + expr list" where
  "LiteEthMACCRCEngine data_width width polynom =
     (if data_width = 0 \<or> width = 0 then Inl TypeError
      else case engine_curval data_width width polynom of
             Inl e \<Rightarrow> Inl e
           | Inr curval \<Rightarrow>
               collect (map (\<lambda>i. reduce_xor (map signal_of (curval ! i))) [0..<width]))"

text \<open>The combinational value of \<^verbatim>\<open>next\<close>, from the values of \<^verbatim>\<open>last\<close> and \<^verbatim>\<open>data\<close>.\<close>

fun eval_expr :: "int \<Rightarrow> int \<Rightarrow> expr \<Rightarrow> bool" where
  "eval_expr lst dat (LastBit n) = bit lst n"
| "eval_expr lst dat (DataBit n) = bit dat n"
| "eval_expr lst dat (Xor a b) = (eval_expr lst dat a \<noteq> eval_expr lst dat b)"

definition engine_next :: "expr list \<Rightarrow> int \<Rightarrow> int \<Rightarrow> int" where
  "engine_next es lst dat = horner_sum of_bool 2 (map (eval_expr lst dat) es)"

subsection \<open>The bit-serial recurrence of the specification\<close>

text \<open>
  One shift of the serial register of \<open>N\<close> bits: the bit shifted out, xored with the
  input bit, is the feedback; it becomes bit 0 and is xored into every tap position of
  the polynomial; every other bit moves up by one.
\<close>

definition lfsr_shift :: "nat \<Rightarrow> int \<Rightarrow> int \<Rightarrow> bool \<Rightarrow> int" where
  "lfsr_shift N P s b =
     (let fb = (bit s (N - 1) \<noteq> b)
      in horner_sum of_bool 2
           (map (\<lambda>j. if j = 0 then fb else (bit s (j - 1) \<noteq> (bit P j \<and> fb))) [0..<N]))"

definition lfsr_serial :: "nat \<Rightarrow> int \<Rightarrow> int \<Rightarrow> bool list \<Rightarrow> int" where
  "lfsr_serial N P s bs = foldl (lfsr_shift N P) s bs"

section \<open>LiteEthMACCRC32\<close>

definition crc_width :: nat where "crc_width = 32"
definition crc_polynom :: int where "crc_polynom = 0x04C11DB7"
definition crc_init :: int where "crc_init = 2 ^ crc_width - 1"
definition crc_check :: int where "crc_check = 0xC704DD7B"

text \<open>
  The elaborated unit: \<open>lanes\<close> is the source's \<^verbatim>\<open>dw = data_width//8\<close>, and engine \<open>e\<close>
  takes \<open>(e+1)*8\<close> data bits. With \<open>dw = 0\<close> the signal \<^verbatim>\<open>last_be = Signal(dw)\<close> has
  no bit, which is refused with TypeError (as is \<^verbatim>\<open>Signal(data_width)\<close> for a data
  width of 0).
\<close>

record crc32 =
  lanes :: nat
  engines :: "expr list list"

definition LiteEthMACCRC32 :: "nat \<Rightarrow> py_error + crc32" where
  "LiteEthMACCRC32 data_width =
     (let dw = data_width div 8
      in if dw = 0 then Inl TypeError
         else case collect (map (\<lambda>e. LiteEthMACCRCEngine ((e + 1) * 8) crc_width crc_polynom)
                                [0..<dw]) of
                Inl err \<Rightarrow> Inl err
              | Inr es \<Rightarrow> Inr \<lparr>lanes = dw, engines = es\<rparr>)"

text \<open>The registers of the unit, one per lane, at their reset value.\<close>

definition crc_reset_regs :: "crc32 \<Rightarrow> int list" where
  "crc_reset_regs u = replicate (lanes u) crc_init"

text \<open>The internal \<^verbatim>\<open>last_be\<close>: the input when it is not zero, else the top lane.\<close>

definition crc_last_be :: "crc32 \<Rightarrow> int \<Rightarrow> int" where
  "crc_last_be u lb = (if lb \<noteq> 0 then lb else 2 ^ (lanes u - 1))"

text \<open>
  \<^verbatim>\<open>engines[e].next\<close>, with \<^verbatim>\<open>engines[e].last = regs[-1]\<close> and
  \<^verbatim>\<open>engines[e].data = data[:(e+1)*8]\<close>.
\<close>

definition crc_engine_next :: "crc32 \<Rightarrow> int list \<Rightarrow> int \<Rightarrow> nat \<Rightarrow> int" where
  "crc_engine_next u regs dat e =
     engine_next (engines u ! e) (last regs) (take_bit ((e + 1) * 8) dat)"

text \<open>\<^verbatim>\<open>x[::-1]\<close> on a signal of \<open>w\<close> bits: bit \<open>i\<close> of the result is bit \<open>w-1-i\<close> of \<open>x\<close>.\<close>

definition reverse_bits :: "nat \<Rightarrow> int \<Rightarrow> int" where
  "reverse_bits w x = horner_sum of_bool 2 (map (\<lambda>i. bit x (w - 1 - i)) [0..<w])"

text \<open>
  \<^verbatim>\<open>value\<close> and \<^verbatim>\<open>error\<close>: one conditional assignment per lane, in the order of the
  lanes, so that the highest lane with its \<^verbatim>\<open>last_be\<close> bit set decides; both are 0 when
  no assignment applies. \<^verbatim>\<open>~\<close> is cut to the 32 bits of \<^verbatim>\<open>value\<close>.
\<close>

definition crc_value :: "crc32 \<Rightarrow> int list \<Rightarrow> int \<Rightarrow> int" where
  "crc_value u regs lb =
     foldl (\<lambda>v e. if bit (crc_last_be u lb) e
                   then take_bit crc_width (NOT (reverse_bits crc_width (regs ! e))) else v)
           0 [0..<lanes u]"

definition crc_error :: "crc32 \<Rightarrow> int list \<Rightarrow> int \<Rightarrow> int \<Rightarrow> bool" where
  "crc_error u regs dat lb =
     foldl (\<lambda>v e. if bit (crc_last_be u lb) e
                   then crc_engine_next u regs dat e \<noteq> crc_check else v)
           False [0..<lanes u]"

text \<open>
  The clocked update: \<^verbatim>\<open>regs[e] <= engines[e].next\<close> under the clock enable that
  \<^verbatim>\<open>CEInserter\<close> adds, and the reset of \<^verbatim>\<open>ResetInserter\<close>, which is applied last and so
  has priority.
\<close>

definition crc_sync :: "crc32 \<Rightarrow> bool \<Rightarrow> bool \<Rightarrow> int \<Rightarrow> int list \<Rightarrow> int list" where
  "crc_sync u reset ce dat regs =
     (if reset then crc_reset_regs u
      else if ce then map (crc_engine_next u regs dat) [0..<lanes u]
      else regs)"

section \<open>Streams\<close>

text \<open>
  One element of a stream endpoint whose description has the payload fields \<^verbatim>\<open>data\<close>,
  \<^verbatim>\<open>last_be\<close> and a one-bit \<^verbatim>\<open>error\<close>, with the \<^verbatim>\<open>first\<close> and \<^verbatim>\<open>last\<close> flags of the
  endpoint. \<^verbatim>\<open>a.connect(b)\<close> drives \<^verbatim>\<open>valid\<close> and all these from \<open>a\<close> to \<open>b\<close>, and
  \<^verbatim>\<open>ready\<close> from \<open>b\<close> to \<open>a\<close>. A signal that no statement drives is 0.
\<close>

record stream_elem =
  e_data :: int
  e_last_be :: int
  e_error :: bool
  e_first :: bool
  e_last :: bool

definition zero_elem :: stream_elem where
  "zero_elem = \<lparr>e_data = 0, e_last_be = 0, e_error = False, e_first = False, e_last = False\<rparr>"

text \<open>What the environment drives in one cycle.\<close>

record stream_in =
  sink_valid :: bool
  sink :: stream_elem
  source_ready :: bool

section \<open>LiteEthMACCRCInserter\<close>

datatype ins_fsm = ins_IDLE | ins_COPY | ins_CRC

record inserter =
  ins_dw :: nat
  ins_ratio :: nat
  ins_crc :: crc32

definition LiteEthMACCRC32Inserter :: "nat \<Rightarrow> py_error + inserter" where
  "LiteEthMACCRC32Inserter dw =
     (case LiteEthMACCRC32 dw of
        Inl err \<Rightarrow> Inl err
      | Inr crc \<Rightarrow> Inr \<lparr>ins_dw = dw, ins_ratio = crc_width div dw, ins_crc = crc\<rparr>)"

record ins_state =
  i_fsm :: ins_fsm
  i_regs :: "int list"
  i_cnt :: nat

definition ins_init :: "inserter \<Rightarrow> ins_state" where
  "ins_init m = \<lparr>i_fsm = ins_IDLE, i_regs = crc_reset_regs (ins_crc m), i_cnt = ins_ratio m - 1\<rparr>"

text \<open>
  The width of \<^verbatim>\<open>Signal(max=ratio)\<close> is \<^verbatim>\<open>bits_for(ratio-1)\<close>: the bit length of
  \<open>ratio-1\<close>, and 1 for 0.
\<close>

fun bit_length :: "nat \<Rightarrow> nat" where
  "bit_length n = (if n = 0 then 0 else Suc (bit_length (n div 2)))"

declare bit_length.simps [simp del]

definition bits_for :: "nat \<Rightarrow> nat" where
  "bits_for n = (if n = 0 then 1 else bit_length n)"

text \<open>
  \<^verbatim>\<open>chooser(signal, shift, output, reverse=True)\<close> of migen: with \<open>n = 2 ^ len(shift)\<close>
  and \<open>w = len(output)\<close>, the output is the slice \<^verbatim>\<open>signal[s*w:(s+1)*w]\<close> for
  \<open>s = n - shift - 1\<close>. The signal here is the 32-bit \<^verbatim>\<open>crc.value\<close>.
\<close>

definition chooser_reverse :: "int \<Rightarrow> nat \<Rightarrow> nat \<Rightarrow> nat \<Rightarrow> int" where
  "chooser_reverse signal shift shift_len w =
     (let n = 2 ^ shift_len; s = n - shift - 1
      in take_bit w (drop_bit (s * w) signal))"

record ins_out =
  o_sink_ready :: bool
  o_source_valid :: bool
  o_source :: stream_elem
  o_crc_ce :: bool
  o_crc_reset :: bool

text \<open>The combinational outputs of the inserter in one cycle.\<close>

definition ins_comb :: "inserter \<Rightarrow> ins_state \<Rightarrow> stream_in \<Rightarrow> ins_out" where
  "ins_comb m st inp =
     (case i_fsm st of
        ins_IDLE \<Rightarrow>
          \<lparr>o_sink_ready = (if sink_valid inp then False else True),
           o_source_valid = False, o_source = zero_elem,
           o_crc_ce = False, o_crc_reset = True\<rparr>
      | ins_COPY \<Rightarrow>
          \<lparr>o_sink_ready = source_ready inp,
           o_source_valid = sink_valid inp,
           o_source = (sink inp)\<lparr>e_last := False\<rparr>,
           o_crc_ce = (sink_valid inp \<and> source_ready inp), o_crc_reset = False\<rparr>
      | ins_CRC \<Rightarrow>
          (let val = crc_value (ins_crc m) (i_regs st) 0
           in if ins_ratio m > 1
              then \<lparr>o_sink_ready = False, o_source_valid = True,
                    o_source = zero_elem
                      \<lparr>e_data := chooser_reverse val (i_cnt st) (bits_for (ins_ratio m - 1)) (ins_dw m),
                       e_last := (i_cnt st = 0)\<rparr>,
                    o_crc_ce = False, o_crc_reset = False\<rparr>
              else \<lparr>o_sink_ready = False, o_source_valid = True,
                    o_source = zero_elem\<lparr>e_data := take_bit (ins_dw m) val, e_last := True\<rparr>,
                    o_crc_ce = False, o_crc_reset = False\<rparr>))"

text \<open>The state after the clock edge.\<close>

definition ins_next_fsm :: "inserter \<Rightarrow> ins_state \<Rightarrow> stream_in \<Rightarrow> ins_fsm" where
  "ins_next_fsm m st inp =
     (case i_fsm st of
        ins_IDLE \<Rightarrow> (if sink_valid inp then ins_COPY else ins_IDLE)
      | ins_COPY \<Rightarrow>
          (if sink_valid inp \<and> e_last (sink inp) \<and> source_ready inp then ins_CRC else ins_COPY)
      | ins_CRC \<Rightarrow>
          (if ins_ratio m > 1
           then (if i_cnt st = 0 \<and> source_ready inp then ins_IDLE else ins_CRC)
           else (if source_ready inp then ins_IDLE else ins_CRC)))"

definition ins_next_cnt :: "inserter \<Rightarrow> ins_state \<Rightarrow> stream_in \<Rightarrow> nat" where
  "ins_next_cnt m st inp =
     (if ins_ratio m > 1
      then (if i_fsm st = ins_IDLE then ins_ratio m - 1
            else if i_fsm st = ins_CRC \<and> i_cnt st \<noteq> 0
            then i_cnt st - (if source_ready inp then 1 else 0)
            else i_cnt st)
      else i_cnt st)"

definition ins_sync :: "inserter \<Rightarrow> ins_state \<Rightarrow> stream_in \<Rightarrow> ins_state" where
  "ins_sync m st inp =
     (let out = ins_comb m st inp
      in \<lparr>i_fsm = ins_next_fsm m st inp,
          i_regs = crc_sync (ins_crc m) (o_crc_reset out) (o_crc_ce out)
                     (if i_fsm st = ins_COPY then e_data (sink inp) else 0) (i_regs st),
          i_cnt = ins_next_cnt m st inp\<rparr>)"

section \<open>LiteEthMACCRCChecker\<close>

datatype chk_fsm = chk_RESET | chk_IDLE | chk_COPY

record checker =
  chk_dw :: nat
  chk_ratio :: nat
  chk_crc :: crc32

definition LiteEthMACCRC32Checker :: "nat \<Rightarrow> py_error + checker" where
  "LiteEthMACCRC32Checker dw =
     (case LiteEthMACCRC32 dw of
        Inl err \<Rightarrow> Inl err
      | Inr crc \<Rightarrow> Inr \<lparr>chk_dw = dw, chk_ratio = crc_width div dw, chk_crc = crc\<rparr>)"

text \<open>
  The staging buffer is \<^verbatim>\<open>stream.SyncFIFO(description, ratio + 1)\<close> of the stream
  library: a first-word-fall-through queue of depth \<open>ratio + 1\<close> whose \<^verbatim>\<open>level\<close> is the
  number of elements it holds. It is writable while the level is not the depth and
  readable while the level is not 0; its reset empties it. The state keeps the queue,
  oldest element first. What the read port shows while the queue is empty is stale
  storage, which the model does not keep: the payload output is \<open>None\<close> then.
\<close>

record chk_state =
  c_fsm :: chk_fsm
  c_regs :: "int list"
  c_fifo :: "stream_elem list"

definition chk_init :: "checker \<Rightarrow> chk_state" where
  "chk_init m = \<lparr>c_fsm = chk_RESET, c_regs = crc_reset_regs (chk_crc m), c_fifo = []\<rparr>"

record chk_out =
  k_sink_ready :: bool
  k_source_valid :: bool
  k_source_payload :: "stream_elem option"
  k_source_last :: bool
  k_source_error :: bool
  k_error :: bool
  k_crc_ce :: bool
  k_crc_reset :: bool
  k_fifo_reset :: bool

definition chk_comb :: "checker \<Rightarrow> chk_state \<Rightarrow> stream_in \<Rightarrow> chk_out" where
  "chk_comb m st inp =
     (let fifo_full = (length (c_fifo st) = chk_ratio m);
          source_valid = (sink_valid inp \<and> fifo_full);
          fifo_out = (source_valid \<and> source_ready inp);
          fifo_in = (sink_valid inp \<and> (\<not> fifo_full \<or> fifo_out));
          crc_err = crc_error (chk_crc m) (c_regs st) (e_data (sink inp)) 0
      in \<lparr>k_sink_ready = fifo_in,
          k_source_valid = source_valid,
          k_source_payload = (case c_fifo st of [] \<Rightarrow> None | x # _ \<Rightarrow> Some x),
          k_source_last = e_last (sink inp),
          k_source_error = (e_error (sink inp) \<or> crc_err),
          k_error = (source_valid \<and> e_last (sink inp) \<and> crc_err),
          k_crc_ce = (c_fsm st \<noteq> chk_RESET \<and> sink_valid inp \<and> fifo_in),
          k_crc_reset = (c_fsm st = chk_RESET),
          k_fifo_reset = (c_fsm st = chk_RESET)\<rparr>)"

definition chk_next_fsm :: "checker \<Rightarrow> chk_state \<Rightarrow> stream_in \<Rightarrow> chk_fsm" where
  "chk_next_fsm m st inp =
     (let accept = (sink_valid inp \<and> k_sink_ready (chk_comb m st inp))
      in case c_fsm st of
           chk_RESET \<Rightarrow> chk_IDLE
         | chk_IDLE \<Rightarrow> (if accept then chk_COPY else chk_IDLE)
         | chk_COPY \<Rightarrow> (if accept \<and> e_last (sink inp) then chk_RESET else chk_COPY))"

text \<open>
  The queue after the clock edge: written when \<^verbatim>\<open>fifo_in\<close> and writable, read when
  \<^verbatim>\<open>fifo_out\<close> and readable, emptied by the reset.
\<close>

definition fifo_sync :: "nat \<Rightarrow> bool \<Rightarrow> bool \<Rightarrow> bool \<Rightarrow> stream_elem \<Rightarrow> stream_elem list \<Rightarrow> stream_elem list" where
  "fifo_sync depth reset we re din q =
     (let do_write = (we \<and> length q \<noteq> depth);
          do_read = (re \<and> length q \<noteq> 0)
      in if reset then []
         else (if do_read then tl q else q) @ (if do_write then [din] else []))"

definition chk_sync :: "checker \<Rightarrow> chk_state \<Rightarrow> stream_in \<Rightarrow> chk_state" where
  "chk_sync m st inp =
     (let out = chk_comb m st inp
      in \<lparr>c_fsm = chk_next_fsm m st inp,
          c_regs = crc_sync (chk_crc m) (k_crc_reset out) (k_crc_ce out) (e_data (sink inp))
                     (c_regs st),
          c_fifo = fifo_sync (chk_ratio m + 1) (k_fifo_reset out) (k_sink_ready out)
                     (k_source_valid out \<and> source_ready inp) (sink inp) (c_fifo st)\<rparr>)"

section \<open>Driving a module with a packet\<close>

text \<open>
  The upstream holds a list of elements to send. In every cycle it is told whether to
  offer the first of them (\<open>offer\<close>), and the downstream whether it is ready. An element
  offered stays until the module accepts it. The run returns the module's outputs cycle
  by cycle, with the downstream's ready.
\<close>

definition drive_in :: "stream_elem list \<Rightarrow> bool \<times> bool \<Rightarrow> stream_in" where
  "drive_in pend env =
     (case pend of
        [] \<Rightarrow> \<lparr>sink_valid = False, sink = zero_elem, source_ready = snd env\<rparr>
      | x # _ \<Rightarrow> \<lparr>sink_valid = fst env, sink = (if fst env then x else zero_elem),
                   source_ready = snd env\<rparr>)"

fun ins_run :: "inserter \<Rightarrow> ins_state \<Rightarrow> stream_elem list \<Rightarrow> (bool \<times> bool) list
                  \<Rightarrow> (ins_out \<times> bool) list" where
  "ins_run m st pend [] = []"
| "ins_run m st pend (env # envs) =
     (let inp = drive_in pend env;
          out = ins_comb m st inp
      in (out, snd env) #
         ins_run m (ins_sync m st inp)
           (if sink_valid inp \<and> o_sink_ready out then tl pend else pend) envs)"

fun chk_run :: "checker \<Rightarrow> chk_state \<Rightarrow> stream_elem list \<Rightarrow> (bool \<times> bool) list
                  \<Rightarrow> (chk_out \<times> bool) list" where
  "chk_run m st pend [] = []"
| "chk_run m st pend (env # envs) =
     (let inp = drive_in pend env;
          out = chk_comb m st inp
      in (out, snd env) #
         chk_run m (chk_sync m st inp)
           (if sink_valid inp \<and> k_sink_ready out then tl pend else pend) envs)"

text \<open>The elements that the downstream takes: source valid and ready in the same cycle.\<close>

definition ins_released :: "(ins_out \<times> bool) list \<Rightarrow> stream_elem list" where
  "ins_released tr = map (\<lambda>(out, rdy). o_source out) (filter (\<lambda>(out, rdy). o_source_valid out \<and> rdy) tr)"

definition chk_released :: "(chk_out \<times> bool) list \<Rightarrow> chk_out list" where
  "chk_released tr = map fst (filter (\<lambda>(out, rdy). k_source_valid out \<and> rdy) tr)"

text \<open>A packet of bytes: \<^verbatim>\<open>last\<close> on the final element only, no error.\<close>

definition packet :: "int list \<Rightarrow> stream_elem list" where
  "packet bs = map (\<lambda>i. zero_elem\<lparr>e_data := bs ! i, e_last := (i + 1 = length bs)\<rparr>) [0..<length bs]"

text \<open>The number of cycles of a run in which the checker's \<^verbatim>\<open>error\<close> output is set.\<close>

definition chk_pulse_count :: "(chk_out \<times> bool) list \<Rightarrow> nat" where
  "chk_pulse_count tr = length (filter (\<lambda>(out, rdy). k_error out) tr)"

text \<open>The state of the checker after a run.\<close>

fun chk_final :: "checker \<Rightarrow> chk_state \<Rightarrow> stream_elem list \<Rightarrow> (bool \<times> bool) list \<Rightarrow> chk_state" where
  "chk_final m st pend [] = st"
| "chk_final m st pend (env # envs) =
     (let inp = drive_in pend env;
          out = chk_comb m st inp
      in chk_final m (chk_sync m st inp)
           (if sink_valid inp \<and> k_sink_ready out then tl pend else pend) envs)"

text \<open>
  The states that the checker reaches from its reset state, under any inputs, each with
  the elements that it has accepted since its buffer and CRC unit were last reset: a
  cycle in RESET forgets them, a cycle that accepts the sink's element adds it.
\<close>

definition chk_history :: "checker \<Rightarrow> chk_state \<Rightarrow> stream_in \<Rightarrow> stream_elem list \<Rightarrow> stream_elem list" where
  "chk_history m st inp h =
     (if k_fifo_reset (chk_comb m st inp) then []
      else if sink_valid inp \<and> k_sink_ready (chk_comb m st inp) then h @ [sink inp]
      else h)"

inductive chk_trace :: "checker \<Rightarrow> chk_state \<Rightarrow> stream_elem list \<Rightarrow> bool" for m where
  trace_init: "chk_trace m (chk_init m) []"
| trace_step: "chk_trace m st h \<Longrightarrow> chk_trace m (chk_sync m st inp) (chk_history m st inp h)"

section \<open>The value of a row of identifiers\<close>

text \<open>
  The xor of the bits that a list of identifiers names is the parity of the number of
  those that are set; for a dictionary of counts, the parity of the sum of the counts of
  the set ones.
\<close>

fun sym_val :: "int \<Rightarrow> int \<Rightarrow> sym \<Rightarrow> bool" where
  "sym_val lst dat (State n) = bit lst n"
| "sym_val lst dat (Din n) = bit dat n"

definition row_val :: "int \<Rightarrow> int \<Rightarrow> sym list \<Rightarrow> bool" where
  "row_val lst dat l = odd (length (filter (sym_val lst dat) l))"

definition odict_val :: "int \<Rightarrow> int \<Rightarrow> (sym \<times> nat) list \<Rightarrow> bool" where
  "odict_val lst dat d = odd (sum_list (map (\<lambda>(k, v). if sym_val lst dat k then v else 0) d))"


section \<open>Streams that the modules are expected to produce\<close>

text \<open>
  The CRC value cut into elements of \<open>dw\<close> bits, the least significant chunk first, with
  \<^verbatim>\<open>last\<close> on the final one.
\<close>

definition crc_chunks :: "inserter \<Rightarrow> int \<Rightarrow> stream_elem list" where
  "crc_chunks m val =
     map (\<lambda>i. zero_elem\<lparr>e_data := take_bit (ins_dw m) (drop_bit (i * ins_dw m) val),
                        e_last := (i + 1 = ins_ratio m)\<rparr>)
         [0..<ins_ratio m]"

text \<open>The modules for a data width of 8 bits, as their constructors return them.\<close>

definition inserter8 :: inserter where
  "inserter8 = projr (LiteEthMACCRC32Inserter 8)"

definition checker8 :: checker where
  "checker8 = projr (LiteEthMACCRC32Checker 8)"

text \<open>The bits of a byte in the order in which the serial register takes them.\<close>

definition byte_bits :: "int \<Rightarrow> bool list" where
  "byte_bits d = map (bit d) [0..<8]"

text \<open>The register of the serial recurrence after a list of bytes.\<close>

definition crc_bytes :: "int \<Rightarrow> int list \<Rightarrow> int" where
  "crc_bytes r ds = lfsr_serial crc_width crc_polynom r (concat (map byte_bits ds))"

text \<open>The registers of the CRC unit after enabled updates with a list of data words.\<close>

definition crc_fold :: "crc32 \<Rightarrow> int list \<Rightarrow> int list \<Rightarrow> int list" where
  "crc_fold u regs ds = foldl (\<lambda>r d. crc_sync u False True d r) regs ds"

text \<open>
  The CRC value that the unit shows after the bytes \<open>bs\<close>, started from its reset value:
  the complement of the bit-reversed register.
\<close>

definition crc32_bytes :: "int list \<Rightarrow> int" where
  "crc32_bytes bs = take_bit 32 (NOT (reverse_bits 32 (crc_bytes crc_init bs)))"

section \<open>The engine computes the serial recurrence\<close>

lemma row_val_Nil [simp]: "row_val lst dat [] = False"
  by (simp add: row_val_def)

lemma row_val_append: "row_val lst dat (a @ b) = (row_val lst dat a \<noteq> row_val lst dat b)"
  by (simp add: row_val_def)

lemma row_val_single [simp]: "row_val lst dat [x] = sym_val lst dat x"
  by (simp add: row_val_def)

lemma odict_val_count:
  "odict_val lst dat (odict_count d e) = (odict_val lst dat d \<noteq> sym_val lst dat e)"
  by (induction d e rule: odict_count.induct) (auto simp: odict_val_def)

lemma odict_val_foldl:
  "odict_val lst dat (foldl odict_count d l) = (odict_val lst dat d \<noteq> row_val lst dat l)"
proof (induction l arbitrary: d)
  case Nil
  then show ?case by simp
next
  case (Cons e l)
  have "row_val lst dat (e # l) = (sym_val lst dat e \<noteq> row_val lst dat l)"
    using row_val_append [of lst dat "[e]" l] by simp
  with Cons show ?case by (auto simp: odict_val_count)
qed

lemma row_val_Cons: "row_val lst dat (k # xs) = (sym_val lst dat k \<noteq> row_val lst dat xs)"
  using row_val_append [of lst dat "[k]" xs] by simp

lemma row_val_odd_keys:
  "row_val lst dat (map fst (filter (\<lambda>(key, val). val mod 2 \<noteq> 0) d)) = odict_val lst dat d"
proof (induction d)
  case Nil
  then show ?case by (simp add: odict_val_def)
next
  case (Cons kv d)
  obtain k v where kv: "kv = (k, v)" by (cases kv)
  have "odict_val lst dat ((k, v) # d) = ((sym_val lst dat k \<and> odd v) \<noteq> odict_val lst dat d)"
    by (auto simp: odict_val_def)
  moreover have "(v mod 2 \<noteq> 0) = odd v" by presburger
  ultimately show ?case using Cons
    by (simp add: kv row_val_Cons)
qed


lemma row_val_optimize_eq: "row_val lst dat (optimize_eq l) = row_val lst dat l"
  unfolding optimize_eq_def row_val_odd_keys odict_val_foldl by (simp add: odict_val_def)

lemma eval_signal_of: "eval_expr lst dat (signal_of e) = sym_val lst dat e"
  by (cases e) simp_all

lemma eval_foldl_Xor:
  "eval_expr lst dat (foldl Xor x (map signal_of l)) = (eval_expr lst dat x \<noteq> row_val lst dat l)"
proof (induction l arbitrary: x)
  case Nil
  then show ?case by simp
next
  case (Cons e l)
  show ?case using Cons [of "Xor x (signal_of e)"] by (auto simp: row_val_Cons eval_signal_of)
qed

lemma reduce_xor_val:
  "l \<noteq> [] \<Longrightarrow> \<exists>x. reduce_xor (map signal_of l) = Inr x \<and> eval_expr lst dat x = row_val lst dat l"
  by (cases l) (simp_all add: eval_foldl_Xor row_val_Cons eval_signal_of)

lemma bit_lfsr_shift:
  "bit (lfsr_shift N P s b) j =
     (j < N \<and> (if j = 0 then (bit s (N - 1) \<noteq> b)
               else (bit s (j - 1) \<noteq> (bit P j \<and> (bit s (N - 1) \<noteq> b)))))"
  by (auto simp: lfsr_shift_def Let_def bit_horner_sum_bit_iff)

lemma mem_taps: "j \<in> set (taps N P) \<longleftrightarrow> j < N \<and> bit P j"
proof -
  have "(push_bit j 1 AND P \<noteq> 0) = bit P j"
    by (simp add: bit_iff_and_push_bit_not_eq_0 and.commute)
  then show ?thesis by (auto simp: taps_def)
qed

lemma engine_round_sim:
  assumes len: "length c = N" and pos: "0 < N"
    and rows: "\<forall>j<N. row_val lst dat (c ! j) = bit s j"
  shows "\<exists>c'. engine_round N (taps N P) c i = Inr c' \<and> length c' = N \<and>
           (\<forall>j<N. row_val lst dat (c' ! j) = bit (lfsr_shift N P s (bit dat i)) j)"
proof -
  define feedback where "feedback = last c @ [Din i]"
  define c' where "c' = feedback #
     map (\<lambda>j. optimize_eq (butlast c ! j @ (if j + 1 \<in> set (taps N P) then feedback else [])))
       [0..<N - 1]"
  from len pos have ne: "c \<noteq> []" by auto
  then have eq: "engine_round N (taps N P) c i = Inr c'"
    by (simp add: engine_round_def c'_def feedback_def Let_def)
  have lc: "length c' = N" using pos by (simp add: c'_def)
  have "last c = c ! (N - 1)" using ne len by (simp add: last_conv_nth)
  then have fb: "row_val lst dat feedback = (bit s (N - 1) \<noteq> bit dat i)"
    using rows pos by (simp add: feedback_def row_val_append)
  have "row_val lst dat (c' ! j) = bit (lfsr_shift N P s (bit dat i)) j" if j: "j < N" for j
  proof (cases j)
    case 0
    then show ?thesis using j fb by (simp add: c'_def bit_lfsr_shift)
  next
    case (Suc k)
    with j have k: "k < N - 1" by simp
    then have "butlast c ! k = c ! k" using len by (simp add: nth_butlast)
    moreover have "row_val lst dat (c ! k) = bit s k" using rows k by simp
    ultimately show ?thesis using k j fb
      by (simp add: Suc c'_def row_val_optimize_eq row_val_append mem_taps bit_lfsr_shift)
  qed
  with eq lc show ?thesis by blast
qed

lemma engine_rounds_sim:
  assumes "length c = N" and "0 < N"
    and "\<forall>j<N. row_val lst dat (c ! j) = bit s j"
  shows "\<exists>c'. engine_rounds N (taps N P) ixs c = Inr c' \<and> length c' = N \<and>
           (\<forall>j<N. row_val lst dat (c' ! j) = bit (lfsr_serial N P s (map (bit dat) ixs)) j)"
  using assms
proof (induction ixs arbitrary: c s)
  case Nil
  then show ?case by (simp add: lfsr_serial_def)
next
  case (Cons i rest)
  from engine_round_sim [OF Cons.prems(1) Cons.prems(2) Cons.prems(3), of P i]
  obtain c1 where c1: "engine_round N (taps N P) c i = Inr c1" "length c1 = N"
    "\<forall>j<N. row_val lst dat (c1 ! j) = bit (lfsr_shift N P s (bit dat i)) j"
    by blast
  from Cons.IH [OF c1(2) Cons.prems(2) c1(3)] c1(1)
  show ?case by (simp add: lfsr_serial_def)
qed

lemma engine_curval_sim:
  assumes "0 < N"
  shows "\<exists>c. engine_curval W N P = Inr c \<and> length c = N \<and>
           (\<forall>lst dat. \<forall>j<N. row_val lst dat (c ! j) =
               bit (lfsr_serial N P lst (map (bit dat) [0..<W])) j)"
proof -
  define c0 where "c0 = map (\<lambda>i. [State i]) [0..<N]"
  have l0: "length c0 = N" by (simp add: c0_def)
  have r0: "\<forall>j<N. row_val lst dat (c0 ! j) = bit lst j" for lst dat
    by (simp add: c0_def)
  obtain c where c: "engine_rounds N (taps N P) [0..<W] c0 = Inr c" "length c = N"
    using engine_rounds_sim [OF l0 assms r0, where P = P and ixs = "[0..<W]"] by blast
  have "row_val lst dat (c ! j) = bit (lfsr_serial N P lst (map (bit dat) [0..<W])) j"
    if "j < N" for lst dat j
    using engine_rounds_sim [where c = c0 and N = N and s = lst and lst = lst and dat = dat and P = P and ixs = "[0..<W]"] l0 assms r0 [of lst dat] c(1) that by auto
  with c show ?thesis by (auto simp: engine_curval_def c0_def)
qed

lemma lfsr_shift_take_bit: "lfsr_shift N P (take_bit N s) b = lfsr_shift N P s b"
  by (rule bit_eqI) (auto simp: bit_lfsr_shift bit_take_bit_iff)

lemma take_bit_lfsr_shift: "take_bit N (lfsr_shift N P s b) = lfsr_shift N P s b"
  by (rule bit_eqI) (auto simp: bit_lfsr_shift bit_take_bit_iff)

lemma take_bit_lfsr_serial:
  "take_bit N (lfsr_serial N P s bs) = lfsr_serial N P (take_bit N s) bs"
proof (induction bs arbitrary: s)
  case Nil
  then show ?case by (simp add: lfsr_serial_def)
next
  case (Cons b bs)
  have "take_bit N (lfsr_serial N P s (b # bs)) = take_bit N (lfsr_serial N P (lfsr_shift N P s b) bs)"
    by (simp add: lfsr_serial_def)
  also have "\<dots> = lfsr_serial N P (lfsr_shift N P s b) bs"
    by (simp add: Cons take_bit_lfsr_shift)
  finally show ?case by (simp add: lfsr_serial_def lfsr_shift_take_bit)
qed

lemma lfsr_shift_surj:
  assumes "0 < N"
  shows "\<exists>s. lfsr_shift N P s b = take_bit N t"
proof -
  define s :: int where "s = horner_sum of_bool 2
     (map (\<lambda>k. if k = N - 1 then (bit t 0 \<noteq> b)
                 else (bit t (k + 1) \<noteq> (bit P (k + 1) \<and> bit t 0))) [0..<N])"
  have bs: "bit s k = (k < N \<and> (if k = N - 1 then (bit t 0 \<noteq> b)
                 else (bit t (k + 1) \<noteq> (bit P (k + 1) \<and> bit t 0))))" for k
    by (auto simp: s_def bit_horner_sum_bit_iff)
  have "lfsr_shift N P s b = take_bit N t"
  proof (rule bit_eqI)
    fix j
    show "bit (lfsr_shift N P s b) j = bit (take_bit N t) j"
      using assms by (cases j) (auto simp: bit_lfsr_shift bit_take_bit_iff bs)
  qed
  then show ?thesis ..
qed

lemma lfsr_serial_surj:
  assumes "0 < N"
  shows "\<exists>s. lfsr_serial N P s bs = take_bit N t"
proof (induction bs arbitrary: t)
  case Nil
  show ?case by (rule exI [of _ "take_bit N t"]) (simp add: lfsr_serial_def)
next
  case (Cons b bs)
  obtain s' where s': "lfsr_serial N P s' bs = take_bit N t" using Cons by blast
  obtain s where s: "lfsr_shift N P s b = take_bit N s'"
    using lfsr_shift_surj [OF assms] by blast
  have "lfsr_serial N P s (b # bs) = lfsr_serial N P (take_bit N s') bs"
    by (simp add: lfsr_serial_def s)
  also have "\<dots> = take_bit N t"
    using s' take_bit_lfsr_serial [of N P s' bs] by simp
  finally show ?case ..
qed

lemma collect_all_Inr:
  assumes "\<forall>i<length xs. \<exists>x. xs ! i = Inr x"
  shows "\<exists>ys. collect xs = Inr ys \<and> length ys = length xs \<and> (\<forall>i<length xs. xs ! i = Inr (ys ! i))"
  using assms
proof (induction xs)
  case Nil
  then show ?case by simp
next
  case (Cons a xs)
  from Cons.prems obtain x where x: "a = Inr x" by fastforce
  from Cons.prems have "\<forall>i<length xs. \<exists>x. xs ! i = Inr x" by fastforce
  with Cons.IH obtain ys where ys: "collect xs = Inr ys" "length ys = length xs"
    "\<forall>i<length xs. xs ! i = Inr (ys ! i)" by blast
  have "\<forall>i<length (a # xs). (a # xs) ! i = Inr ((x # ys) ! i)"
    using x ys(3) by (auto simp: nth_Cons split: nat.splits)
  with x ys show ?case by auto
qed

lemma engine_rows_nonempty:
  assumes "0 < N" and c: "engine_curval W N P = Inr c" and j: "j < N"
  shows "c ! j \<noteq> []"
proof
  assume e: "c ! j = []"
  obtain c' where c': "engine_curval W N P = Inr c'"
    "\<forall>lst dat. \<forall>j<N. row_val lst dat (c' ! j) =
               bit (lfsr_serial N P lst (map (bit dat) [0..<W])) j"
    using engine_curval_sim [OF assms(1)] by blast
  with c have cc: "c' = c" by simp
  obtain s where s: "lfsr_serial N P s (map (bit (0::int)) [0..<W]) = take_bit N (push_bit j 1)"
    using lfsr_serial_surj [OF assms(1)] by blast
  have "row_val s 0 (c ! j) = bit (take_bit N (push_bit j (1::int))) j"
    using c'(2) j cc s by simp
  then show False using e j by (simp add: bit_take_bit_iff bit_push_bit_iff bit_exp_iff)
qed

lemma engine_correct:
  assumes n: "0 < N" and w: "0 < W"
  shows "\<exists>es. LiteEthMACCRCEngine W N P = Inr es \<and> length es = N \<and>
           (\<forall>s d. engine_next es s d = lfsr_serial N P (take_bit N s) (map (bit d) [0..<W]))"
proof -
  obtain c where c: "engine_curval W N P = Inr c" "length c = N"
    "\<forall>lst dat. \<forall>j<N. row_val lst dat (c ! j) =
               bit (lfsr_serial N P lst (map (bit dat) [0..<W])) j"
    using engine_curval_sim [OF n] by blast
  define rs where "rs = map (\<lambda>i. reduce_xor (map signal_of (c ! i))) [0..<N]"
  have "\<forall>i<length rs. \<exists>x. rs ! i = Inr x"
    using reduce_xor_val [OF engine_rows_nonempty [OF n c(1)]]
    by (auto simp: rs_def) blast
  from collect_all_Inr [OF this]
  obtain es where es: "collect rs = Inr es" "length es = N" "\<forall>i<N. rs ! i = Inr (es ! i)"
    by (auto simp: rs_def)
  have ev: "eval_expr s d (es ! i) = row_val s d (c ! i)" if i: "i < N" for i s d
  proof -
    obtain x where "reduce_xor (map signal_of (c ! i)) = Inr x" "eval_expr s d x = row_val s d (c ! i)"
      using reduce_xor_val [OF engine_rows_nonempty [OF n c(1) i]] by blast
    moreover have "rs ! i = reduce_xor (map signal_of (c ! i))" using i by (simp add: rs_def)
    ultimately show ?thesis using es(3) i by simp
  qed
  have "engine_next es s d = lfsr_serial N P (take_bit N s) (map (bit d) [0..<W])" for s d
  proof -
    have "engine_next es s d = take_bit N (lfsr_serial N P s (map (bit d) [0..<W]))"
      by (rule bit_eqI)
        (auto simp: engine_next_def bit_horner_sum_bit_iff es(2) ev c(3) bit_take_bit_iff)
    then show ?thesis by (simp add: take_bit_lfsr_serial)
  qed
  moreover have "LiteEthMACCRCEngine W N P = Inr es"
    using c(1) es(1) n w by (simp add: LiteEthMACCRCEngine_def rs_def)
  ultimately show ?thesis using es(2) by blast
qed

section \<open>Properties of the CRC32 unit\<close>

lemma lfsr_shift_textbook:
  assumes "bit P 0"
  shows "lfsr_shift N P s b =
           take_bit N (push_bit 1 s XOR (if bit s (N - 1) \<noteq> b then P else 0))"
proof (rule bit_eqI)
  fix j
  have d: "bit (s * 2) k = (k \<noteq> 0 \<and> bit s (k - 1))" for k
    using bit_double_iff [of s k] by (simp add: mult.commute)
  show "bit (lfsr_shift N P s b) j =
        bit (take_bit N (push_bit 1 s XOR (if bit s (N - 1) \<noteq> b then P else 0))) j"
    using assms
    by (cases j) (auto simp: bit_lfsr_shift bit_take_bit_iff bit_xor_iff d)
qed

lemma collect_map_Inr:
  assumes "collect (map f xs) = Inr ys"
  shows "length ys = length xs \<and> (\<forall>i<length xs. f (xs ! i) = Inr (ys ! i))"
  using assms
proof (induction xs arbitrary: ys)
  case Nil
  then show ?case by simp
next
  case (Cons a xs)
  from Cons.prems obtain y ys' where y: "f a = Inr y" "collect (map f xs) = Inr ys'" "ys = y # ys'"
    by (cases "f a"; cases "collect (map f xs)") auto
  from Cons.IH [OF y(2)] y show ?case
    by (auto simp: nth_Cons split: nat.splits)
qed

lemma crc32_engines:
  assumes "LiteEthMACCRC32 data_width = Inr u"
  shows "lanes u = data_width div 8" and "0 < lanes u" and "length (engines u) = lanes u"
    and "e < lanes u \<Longrightarrow>
           LiteEthMACCRCEngine ((e + 1) * 8) crc_width crc_polynom = Inr (engines u ! e)"
proof -
  let ?f = "\<lambda>e. LiteEthMACCRCEngine ((e + 1) * 8) crc_width crc_polynom"
  from assms have pos: "data_width div 8 \<noteq> 0"
    by (auto simp: LiteEthMACCRC32_def Let_def split: if_splits)
  with assms obtain es where es: "collect (map ?f [0..<data_width div 8]) = Inr es"
    "u = \<lparr>lanes = data_width div 8, engines = es\<rparr>"
    by (auto simp: LiteEthMACCRC32_def Let_def split: sum.splits)
  from collect_map_Inr [OF es(1)]
  have l: "length es = data_width div 8" and n: "\<forall>i<data_width div 8. ?f i = Inr (es ! i)"
    by auto
  show "lanes u = data_width div 8" by (simp add: es(2))
  show "0 < lanes u" using pos by (simp add: es(2))
  show "length (engines u) = lanes u" by (simp add: es(2) l)
  show "e < lanes u \<Longrightarrow> ?f e = Inr (engines u ! e)" using n by (simp add: es(2))
qed

lemma crc32_total:
  assumes "8 \<le> data_width"
  shows "\<exists>u. LiteEthMACCRC32 data_width = Inr u"
proof -
  let ?f = "\<lambda>e. LiteEthMACCRCEngine ((e + 1) * 8) crc_width crc_polynom"
  let ?xs = "map ?f [0..<data_width div 8]"
  have "\<exists>x. ?f i = Inr x" for i
    using engine_correct [of crc_width "(i + 1) * 8" crc_polynom] unfolding crc_width_def by auto
  then have "\<forall>i<length ?xs. \<exists>x. ?xs ! i = Inr x" by simp
  from collect_all_Inr [OF this] obtain es where "collect ?xs = Inr es" by blast
  moreover have "data_width div 8 \<noteq> 0" using assms by auto
  ultimately show ?thesis by (simp add: LiteEthMACCRC32_def Let_def)
qed

lemma crc_engine_next_serial:
  assumes "LiteEthMACCRC32 data_width = Inr u" and "e < lanes u"
  shows "crc_engine_next u regs dat e =
           lfsr_serial crc_width crc_polynom (take_bit crc_width (last regs))
             (map (bit dat) [0..<(e + 1) * 8])"
proof -
  define n where "n = (e + 1) * 8"
  have "0 < crc_width" and "0 < n" by (simp_all add: crc_width_def n_def)
  from engine_correct [OF this, of crc_polynom]
  obtain es where es: "LiteEthMACCRCEngine n crc_width crc_polynom = Inr es"
    "\<forall>s d. engine_next es s d =
        lfsr_serial crc_width crc_polynom (take_bit crc_width s) (map (bit d) [0..<n])"
    by blast
  with crc32_engines(4) [OF assms] have "engines u ! e = es" by (simp add: n_def)
  moreover have "map (bit (take_bit n dat)) [0..<n] = map (bit dat) [0..<n]"
    by (simp add: bit_take_bit_iff)
  ultimately have "crc_engine_next u regs dat e =
      lfsr_serial crc_width crc_polynom (take_bit crc_width (last regs)) (map (bit dat) [0..<n])"
    using es(2) unfolding crc_engine_next_def n_def [symmetric] by metis
  then show ?thesis by (simp only: n_def)
qed

lemma foldl_select:
  assumes "k < n" and "p k" and "\<forall>j. k < j \<and> j < n \<longrightarrow> \<not> p j"
  shows "foldl (\<lambda>v e. if p e then f e else v) v0 [0..<n] = f k"
  using assms
proof (induction n)
  case 0
  then show ?case by simp
next
  case (Suc n)
  show ?case
  proof (cases "k = n")
    case True
    with Suc.prems show ?thesis by simp
  next
    case False
    with Suc.prems have "k < n" "\<not> p n" by auto
    with Suc show ?thesis by simp
  qed
qed

lemma crc_select:
  assumes "k < lanes u" and "bit lb k" and "\<forall>j. k < j \<and> j < lanes u \<longrightarrow> \<not> bit lb j"
  shows "crc_value u regs lb = take_bit crc_width (NOT (reverse_bits crc_width (regs ! k)))"
    and "crc_error u regs dat lb = (crc_engine_next u regs dat k \<noteq> crc_check)"
proof -
  from assms(2) have "lb \<noteq> 0" by auto
  then have lb: "crc_last_be u lb = lb" by (simp add: crc_last_be_def)
  show "crc_value u regs lb = take_bit crc_width (NOT (reverse_bits crc_width (regs ! k)))"
    unfolding crc_value_def lb using assms by (rule foldl_select)
  show "crc_error u regs dat lb = (crc_engine_next u regs dat k \<noteq> crc_check)"
    unfolding crc_error_def lb using assms by (rule foldl_select)
qed

lemma crc_select_zero:
  assumes "0 < lanes u"
  shows "crc_value u regs 0 = take_bit crc_width (NOT (reverse_bits crc_width (regs ! (lanes u - 1))))"
    and "crc_error u regs dat 0 = (crc_engine_next u regs dat (lanes u - 1) \<noteq> crc_check)"
proof -
  have lb: "crc_last_be u 0 = 2 ^ (lanes u - 1)" by (simp add: crc_last_be_def)
  have a: "lanes u - 1 < lanes u" using assms by simp
  have b: "bit ((2::int) ^ (lanes u - 1)) (lanes u - 1)" by (simp add: bit_exp_iff)
  have c: "\<forall>j. lanes u - 1 < j \<and> j < lanes u \<longrightarrow> \<not> bit ((2::int) ^ (lanes u - 1)) j" by auto
  show "crc_value u regs 0 = take_bit crc_width (NOT (reverse_bits crc_width (regs ! (lanes u - 1))))"
    unfolding crc_value_def lb using a b c by (rule foldl_select)
  show "crc_error u regs dat 0 = (crc_engine_next u regs dat (lanes u - 1) \<noteq> crc_check)"
    unfolding crc_error_def lb using a b c by (rule foldl_select)
qed

lemma bit_complement_reverse:
  "bit (take_bit 32 (NOT (reverse_bits 32 r))) i = (i < 32 \<and> \<not> bit r (31 - i))"
  by (auto simp: bit_take_bit_iff bit_not_iff reverse_bits_def bit_horner_sum_bit_iff)

section \<open>Single cycles and quiet runs of the pipelines\<close>

lemma inserter_fields:
  assumes "LiteEthMACCRC32Inserter dw = Inr m"
  shows "ins_dw m = dw" and "ins_ratio m = 32 div dw" and "LiteEthMACCRC32 dw = Inr (ins_crc m)"
  using assms
  by (auto simp: LiteEthMACCRC32Inserter_def crc_width_def split: sum.splits)

lemma inserter_total:
  assumes "8 \<le> dw"
  shows "\<exists>m. LiteEthMACCRC32Inserter dw = Inr m"
  using crc32_total [OF assms] by (auto simp: LiteEthMACCRC32Inserter_def)

lemma checker_fields:
  assumes "LiteEthMACCRC32Checker dw = Inr m"
  shows "chk_dw m = dw" and "chk_ratio m = 32 div dw" and "LiteEthMACCRC32 dw = Inr (chk_crc m)"
  using assms
  by (auto simp: LiteEthMACCRC32Checker_def crc_width_def split: sum.splits)

lemma checker_total:
  assumes "8 \<le> dw"
  shows "\<exists>m. LiteEthMACCRC32Checker dw = Inr m"
  using crc32_total [OF assms] by (auto simp: LiteEthMACCRC32Checker_def)

lemma bits_for_1 [simp]: "bits_for (Suc 0) = 1"
  by (simp add: bits_for_def bit_length.simps [of "Suc 0"] bit_length.simps [of 0])

lemma bits_for_3 [simp]: "bits_for 3 = 2"
  by (simp add: bits_for_def bit_length.simps [of 3] bit_length.simps [of "Suc 0"] bit_length.simps [of 0])

lemma ins_sync_fields [simp]:
  "i_fsm (ins_sync m st inp) = ins_next_fsm m st inp"
  "i_cnt (ins_sync m st inp) = ins_next_cnt m st inp"
  "i_regs (ins_sync m st inp) =
     crc_sync (ins_crc m) (o_crc_reset (ins_comb m st inp)) (o_crc_ce (ins_comb m st inp))
       (if i_fsm st = ins_COPY then e_data (sink inp) else 0) (i_regs st)"
  by (simp_all add: ins_sync_def Let_def)

lemma chk_sync_fields [simp]:
  "c_fsm (chk_sync m st inp) = chk_next_fsm m st inp"
  "c_regs (chk_sync m st inp) =
     crc_sync (chk_crc m) (k_crc_reset (chk_comb m st inp)) (k_crc_ce (chk_comb m st inp))
       (e_data (sink inp)) (c_regs st)"
  "c_fifo (chk_sync m st inp) =
     fifo_sync (chk_ratio m + 1) (k_fifo_reset (chk_comb m st inp))
       (k_sink_ready (chk_comb m st inp))
       (k_source_valid (chk_comb m st inp) \<and> source_ready inp) (sink inp) (c_fifo st)"
  by (simp_all add: chk_sync_def Let_def)


lemma ins_run_idle_quiet:
  assumes "i_fsm st = ins_IDLE"
  shows "ins_released (ins_run m st pend (map (\<lambda>r. (False, r)) rs)) = []"
  using assms
proof (induction rs arbitrary: st)
  case Nil
  then show ?case by (simp add: ins_released_def)
next
  case (Cons r rs)
  let ?inp = "drive_in pend (False, r)"
  have v: "\<not> sink_valid ?inp" by (simp add: drive_in_def split: list.splits)
  have s: "i_fsm (ins_sync m st ?inp) = ins_IDLE"
    using Cons.prems v by (simp add: ins_next_fsm_def)
  have o: "\<not> o_source_valid (ins_comb m st ?inp)"
    using Cons.prems by (simp add: ins_comb_def)
  show ?case using Cons.IH [OF s] v o
    by (simp add: Let_def ins_released_def)
qed

section \<open>The inserter while it appends the CRC\<close>

lemma inserter_ratio_cases:
  assumes "LiteEthMACCRC32Inserter dw = Inr m" and "dw = 8 \<or> dw = 16 \<or> dw = 32"
  shows "(ins_ratio m = 4 \<and> ins_dw m = 8) \<or> (ins_ratio m = 2 \<and> ins_dw m = 16)
         \<or> (ins_ratio m = 1 \<and> ins_dw m = 32)"
  using inserter_fields(1,2) [OF assms(1)] assms(2) by auto

lemma ins_crc_cycle:
  assumes m: "LiteEthMACCRC32Inserter dw = Inr m" and dw: "dw = 8 \<or> dw = 16 \<or> dw = 32"
    and st: "i_fsm st = ins_CRC" and c: "i_cnt st < ins_ratio m"
  shows "o_source_valid (ins_comb m st inp)"
    and "\<not> o_sink_ready (ins_comb m st inp)"
    and "o_source (ins_comb m st inp) =
           crc_chunks m (crc_value (ins_crc m) (i_regs st) 0) ! (ins_ratio m - 1 - i_cnt st)"
    and "i_regs (ins_sync m st inp) = i_regs st"
    and "i_fsm (ins_sync m st inp) =
           (if source_ready inp \<and> i_cnt st = 0 then ins_IDLE else ins_CRC)"
    and "i_fsm (ins_sync m st inp) = ins_CRC \<Longrightarrow>
           i_cnt (ins_sync m st inp) = (if source_ready inp then i_cnt st - 1 else i_cnt st)"
proof -
  note r = inserter_ratio_cases [OF m dw]
  show "o_source_valid (ins_comb m st inp)" using st by (simp add: ins_comb_def Let_def)
  show "\<not> o_sink_ready (ins_comb m st inp)" using st by (simp add: ins_comb_def Let_def)
  show "i_regs (ins_sync m st inp) = i_regs st"
    using st by (simp add: ins_comb_def Let_def crc_sync_def)
  show "i_fsm (ins_sync m st inp) =
           (if source_ready inp \<and> i_cnt st = 0 then ins_IDLE else ins_CRC)"
    using st r c by (auto simp: ins_next_fsm_def)
  show "i_fsm (ins_sync m st inp) = ins_CRC \<Longrightarrow>
           i_cnt (ins_sync m st inp) = (if source_ready inp then i_cnt st - 1 else i_cnt st)"
    using st r c by (auto simp: ins_next_fsm_def ins_next_cnt_def split: if_splits)
  show "o_source (ins_comb m st inp) =
           crc_chunks m (crc_value (ins_crc m) (i_regs st) 0) ! (ins_ratio m - 1 - i_cnt st)"
  proof -
    have lt: "ins_ratio m - 1 - i_cnt st < ins_ratio m" using c by simp
    have z: "i_cnt st = 0 \<longleftrightarrow> ins_ratio m - 1 - i_cnt st + 1 = ins_ratio m" using c by auto
    from r show ?thesis
    proof (elim disjE conjE)
      assume a: "ins_ratio m = 4" "ins_dw m = 8"
      show ?thesis using st c z lt
        by (simp add: ins_comb_def Let_def crc_chunks_def chooser_reverse_def a
            numeral_3_eq_3 [symmetric] del: upt_Suc)
    next
      assume a: "ins_ratio m = 2" "ins_dw m = 16"
      show ?thesis using st c z lt
        by (simp add: ins_comb_def Let_def crc_chunks_def chooser_reverse_def a del: upt_Suc)
    next
      assume a: "ins_ratio m = 1" "ins_dw m = 32"
      show ?thesis using st c
        by (simp add: ins_comb_def Let_def crc_chunks_def a)
    qed
  qed
qed


lemma length_crc_chunks [simp]: "length (crc_chunks m val) = ins_ratio m"
  by (simp add: crc_chunks_def)

lemma ins_run_crc_phase:
  assumes m: "LiteEthMACCRC32Inserter dw = Inr m" and dw: "dw = 8 \<or> dw = 16 \<or> dw = 32"
    and st: "i_fsm st = ins_CRC" and c: "i_cnt st < ins_ratio m"
  shows "ins_released (ins_run m st pend (map (\<lambda>r. (False, r)) rs)) =
           take (length (filter id rs))
             (drop (ins_ratio m - 1 - i_cnt st) (crc_chunks m (crc_value (ins_crc m) (i_regs st) 0)))"
  using st c
proof (induction rs arbitrary: st)
  case Nil
  then show ?case by (simp add: ins_released_def)
next
  case (Cons r rs)
  define inp where "inp = drive_in pend (False, r)"
  define st' where "st' = ins_sync m st inp"
  define ch where "ch = crc_chunks m (crc_value (ins_crc m) (i_regs st) 0)"
  define j where "j = ins_ratio m - 1 - i_cnt st"
  define rest where "rest = ins_released (ins_run m st' pend (map (\<lambda>r. (False, r)) rs))"
  define k where "k = length (filter id rs)"
  note cyc = ins_crc_cycle [OF m dw Cons.prems, of inp, folded st'_def ch_def j_def]
  have rdy: "source_ready inp = r" by (simp add: inp_def drive_in_def split: list.splits)
  have nv: "\<not> sink_valid inp" by (simp add: inp_def drive_in_def split: list.splits)
  have unfold: "ins_released (ins_run m st pend (map (\<lambda>r. (False, r)) (r # rs))) =
      (if r then [ch ! j] else []) @ rest"
    using cyc(1,3) nv unfolding rest_def st'_def inp_def
    by (cases r) (simp_all add: Let_def ins_released_def)
  have j: "j < length ch" using Cons.prems(2) by (simp add: j_def ch_def)
  have goal: "ins_released (ins_run m st pend (map (\<lambda>r. (False, r)) (r # rs))) =
           take (length (filter id (r # rs))) (drop j ch)"
  proof (cases r)
    case False
    then have f: "i_fsm st' = ins_CRC" "i_cnt st' = i_cnt st" "i_regs st' = i_regs st"
      using cyc(4,5,6) rdy by simp_all
    have "rest = take k (drop j ch)"
      unfolding rest_def k_def j_def ch_def using Cons.IH [of st'] Cons.prems(2) f
      by (simp only:)
    with unfold False show ?thesis by (simp add: k_def)
  next
    case True
    show ?thesis
    proof (cases "i_cnt st = 0")
      case z: True
      then have "i_fsm st' = ins_IDLE" using cyc(5) rdy True by simp
      from ins_run_idle_quiet [OF this]
      have q: "rest = []" by (simp add: rest_def)
      have "Suc j = length ch" using z Cons.prems(2) by (simp add: j_def ch_def)
      then have "drop j ch = [ch ! j]"
        using Cons_nth_drop_Suc [OF j] by simp
      with unfold True q show ?thesis by simp
    next
      case nz: False
      then have f: "i_fsm st' = ins_CRC" "i_cnt st' = i_cnt st - 1" "i_regs st' = i_regs st"
        using cyc(4,5,6) rdy True by simp_all
      have lt: "i_cnt st' < ins_ratio m" using f(2) Cons.prems(2) by simp
      have jj: "ins_ratio m - 1 - i_cnt st' = Suc j" using f(2) nz Cons.prems(2) by (simp add: j_def)
      have "rest = take k (drop (Suc j) ch)"
        unfolding rest_def k_def ch_def using Cons.IH [OF f(1) lt] jj f(3)
        by (simp only:)
      with unfold True Cons_nth_drop_Suc [OF j, symmetric]
      show ?thesis by (simp add: k_def)
    qed
  qed
  then show ?case by (simp only: j_def ch_def)
qed

section \<open>The modules for a data width of 8 bits\<close>

lemma inserter8: "LiteEthMACCRC32Inserter 8 = Inr inserter8"
  using inserter_total [of 8] by (auto simp: inserter8_def)

lemma checker8: "LiteEthMACCRC32Checker 8 = Inr checker8"
  using checker_total [of 8] by (auto simp: checker8_def)

lemma inserter8_fields [simp]:
  "ins_dw inserter8 = 8" "ins_ratio inserter8 = 4" "lanes (ins_crc inserter8) = 1"
  using inserter_fields [OF inserter8] crc32_engines(1) [OF inserter_fields(3) [OF inserter8]]
  by simp_all

lemma checker8_fields [simp]:
  "chk_dw checker8 = 8" "chk_ratio checker8 = 4" "lanes (chk_crc checker8) = 1"
  using checker_fields [OF checker8] crc32_engines(1) [OF checker_fields(3) [OF checker8]]
  by simp_all

lemma crc8:
  assumes "LiteEthMACCRC32 8 = Inr u"
  shows "crc_value u [r] 0 = take_bit 32 (NOT (reverse_bits 32 r))"
    and "crc_error u [r] d 0 = (crc_bytes (take_bit 32 r) [d] \<noteq> crc_check)"
    and "crc_sync u False True d [r] = [crc_bytes (take_bit 32 r) [d]]"
    and "crc_sync u False False d regs = regs"
    and "crc_sync u True ce d regs = [crc_init]"
proof -
  have l: "lanes u = 1" using crc32_engines(1) [OF assms] by simp
  then have pos: "0 < lanes u" and k: "0 < lanes u" by simp_all
  have n: "crc_engine_next u [r] d 0 = crc_bytes (take_bit 32 r) [d]"
    using crc_engine_next_serial [OF assms k, of "[r]" d]
    by (simp add: crc_bytes_def byte_bits_def crc_width_def)
  show "crc_value u [r] 0 = take_bit 32 (NOT (reverse_bits 32 r))"
    using crc_select_zero(1) [OF pos, of "[r]"] by (simp add: l crc_width_def)
  show "crc_error u [r] d 0 = (crc_bytes (take_bit 32 r) [d] \<noteq> crc_check)"
    using crc_select_zero(2) [OF pos, of "[r]" d] by (simp add: l n)
  show "crc_sync u False True d [r] = [crc_bytes (take_bit 32 r) [d]]"
    by (simp add: crc_sync_def l n)
  show "crc_sync u False False d regs = regs" by (simp add: crc_sync_def)
  show "crc_sync u True ce d regs = [crc_init]" by (simp add: crc_sync_def crc_reset_regs_def l)
qed

lemmas ins_crc8 = crc8 [OF inserter_fields(3) [OF inserter8]]
lemmas chk_crc8 = crc8 [OF checker_fields(3) [OF checker8]]

lemma crc_bytes_append: "crc_bytes r (xs @ ys) = crc_bytes (crc_bytes r xs) ys"
  by (simp add: crc_bytes_def lfsr_serial_def)

lemma crc_bytes_Nil [simp]: "crc_bytes r [] = r"
  by (simp add: crc_bytes_def lfsr_serial_def)

lemma take_bit_crc_bytes: "take_bit 32 (crc_bytes r ds) = crc_bytes (take_bit 32 r) ds"
  using take_bit_lfsr_serial [of crc_width crc_polynom r] by (simp add: crc_bytes_def crc_width_def)

lemma take_bit_crc_init [simp]: "take_bit 32 crc_init = crc_init"
  by (simp add: crc_init_def crc_width_def)


section \<open>Runs of the inserter over a packet\<close>

lemma drive_in_Cons [simp]:
  "drive_in (x # rest) (True, r) = \<lparr>sink_valid = True, sink = x, source_ready = r\<rparr>"
  by (simp add: drive_in_def)

lemma drive_in_Nil [simp]:
  "drive_in [] env = \<lparr>sink_valid = False, sink = zero_elem, source_ready = snd env\<rparr>"
  by (simp add: drive_in_def)

lemma ins_released_Cons:
  "ins_released ((out, r) # tr) =
     (if o_source_valid out \<and> r then [o_source out] else []) @ ins_released tr"
  by (simp add: ins_released_def)

lemma ins_run_no_pending:
  "ins_run m st [] envs = ins_run m st [] (map (\<lambda>r. (False, r)) (map snd envs))"
  by (induction envs arbitrary: st) (simp_all add: Let_def)

lemma ins_run_idle_start:
  assumes "i_fsm st = ins_IDLE"
  shows "\<exists>st'. i_fsm st' = ins_COPY \<and> i_regs st' = crc_reset_regs (ins_crc m) \<and>
           i_cnt st' = (if ins_ratio m > 1 then ins_ratio m - 1 else i_cnt st) \<and>
           ins_released (ins_run m st (x # rest) ((True, r) # envs)) =
             ins_released (ins_run m st' (x # rest) envs)"
proof -
  define inp where "inp = \<lparr>sink_valid = True, sink = x, source_ready = r\<rparr>"
  define st' where "st' = ins_sync m st inp"
  have c: "\<not> o_source_valid (ins_comb m st inp)" "\<not> o_sink_ready (ins_comb m st inp)"
    "o_crc_reset (ins_comb m st inp)"
    using assms by (simp_all add: ins_comb_def inp_def)
  have "i_fsm st' = ins_COPY" using assms by (simp add: st'_def ins_next_fsm_def inp_def)
  moreover have "i_regs st' = crc_reset_regs (ins_crc m)"
    using c(3) by (simp add: st'_def crc_sync_def)
  moreover have "i_cnt st' = (if ins_ratio m > 1 then ins_ratio m - 1 else i_cnt st)"
    using assms by (simp add: st'_def ins_next_cnt_def)
  moreover have "ins_released (ins_run m st (x # rest) ((True, r) # envs)) =
             ins_released (ins_run m st' (x # rest) envs)"
    using c(1,2) by (simp add: Let_def ins_released_Cons inp_def [symmetric] st'_def)
  ultimately show ?thesis by blast
qed

lemma crc_fold_Cons: "crc_fold u regs (d # ds) = crc_fold u (crc_sync u False True d regs) ds"
  by (simp add: crc_fold_def)

lemma crc_fold_Nil [simp]: "crc_fold u regs [] = regs"
  by (simp add: crc_fold_def)

lemma ins_run_copy_phase:
  assumes "i_fsm st = ins_COPY" and "\<forall>x\<in>set xs. \<not> e_last x" and "e_last l"
  shows "\<exists>st'. i_fsm st' = ins_CRC \<and>
           i_regs st' = crc_fold (ins_crc m) (i_regs st) (map e_data (xs @ [l])) \<and>
           i_cnt st' = i_cnt st \<and>
           ins_released (ins_run m st (xs @ [l]) (replicate (length xs + 1) (True, True) @ envs)) =
             map (\<lambda>e. e\<lparr>e_last := False\<rparr>) (xs @ [l]) @ ins_released (ins_run m st' [] envs)"
  using assms(1,2)
proof (induction xs arbitrary: st)
  case Nil
  define inp where "inp = \<lparr>sink_valid = True, sink = l, source_ready = True\<rparr>"
  define st' where "st' = ins_sync m st inp"
  have v: "sink_valid inp" by (simp add: inp_def)
  have c: "o_source_valid (ins_comb m st inp)" "o_sink_ready (ins_comb m st inp)"
    "o_source (ins_comb m st inp) = l\<lparr>e_last := False\<rparr>"
    "o_crc_ce (ins_comb m st inp)" "\<not> o_crc_reset (ins_comb m st inp)"
    using Nil by (simp_all add: ins_comb_def inp_def)
  have "i_fsm st' = ins_CRC" using Nil assms(3) by (simp add: st'_def ins_next_fsm_def inp_def)
  moreover have "i_regs st' = crc_fold (ins_crc m) (i_regs st) (map e_data ([] @ [l]))"
    using c(4,5) Nil by (simp add: st'_def crc_fold_Cons) (simp add: inp_def)
  moreover have "i_cnt st' = i_cnt st" using Nil by (simp add: st'_def ins_next_cnt_def)
  moreover have "ins_released (ins_run m st ([] @ [l]) (replicate (length ([] :: stream_elem list) + 1) (True, True) @ envs)) =
             map (\<lambda>e. e\<lparr>e_last := False\<rparr>) ([] @ [l]) @ ins_released (ins_run m st' [] envs)"
    using c(1,2,3) v by (simp add: Let_def ins_released_Cons inp_def [symmetric] st'_def)
  ultimately show ?case by blast
next
  case (Cons x xs)
  define inp where "inp = \<lparr>sink_valid = True, sink = x, source_ready = True\<rparr>"
  define st1 where "st1 = ins_sync m st inp"
  have v: "sink_valid inp" by (simp add: inp_def)
  have nl: "\<not> e_last x" using Cons.prems(2) by simp
  have c: "o_source_valid (ins_comb m st inp)" "o_sink_ready (ins_comb m st inp)"
    "o_source (ins_comb m st inp) = x\<lparr>e_last := False\<rparr>"
    "o_crc_ce (ins_comb m st inp)" "\<not> o_crc_reset (ins_comb m st inp)"
    using Cons.prems(1) by (simp_all add: ins_comb_def inp_def)
  have f: "i_fsm st1 = ins_COPY" using Cons.prems(1) nl by (simp add: st1_def ins_next_fsm_def inp_def)
  have r: "i_regs st1 = crc_sync (ins_crc m) False True (e_data x) (i_regs st)"
    using c(4,5) Cons.prems(1) by (simp add: st1_def) (simp add: inp_def)
  have n: "i_cnt st1 = i_cnt st" using Cons.prems(1) by (simp add: st1_def ins_next_cnt_def)
  have u: "ins_released (ins_run m st ((x # xs) @ [l]) (replicate (length (x # xs) + 1) (True, True) @ envs)) =
      x\<lparr>e_last := False\<rparr> # ins_released (ins_run m st1 (xs @ [l]) (replicate (length xs + 1) (True, True) @ envs))"
    using c(1,2,3) v by (simp add: Let_def ins_released_Cons inp_def [symmetric] st1_def)
  from Cons.IH [OF f] Cons.prems(2)
  obtain st' where st': "i_fsm st' = ins_CRC"
    "i_regs st' = crc_fold (ins_crc m) (i_regs st1) (map e_data (xs @ [l]))"
    "i_cnt st' = i_cnt st1"
    "ins_released (ins_run m st1 (xs @ [l]) (replicate (length xs + 1) (True, True) @ envs)) =
       map (\<lambda>e. e\<lparr>e_last := False\<rparr>) (xs @ [l]) @ ins_released (ins_run m st' [] envs)"
    by auto
  have "i_regs st' = crc_fold (ins_crc m) (i_regs st) (map e_data ((x # xs) @ [l]))"
    using st'(2) r by (simp add: crc_fold_Cons)
  moreover have "ins_released (ins_run m st ((x # xs) @ [l]) (replicate (length (x # xs) + 1) (True, True) @ envs)) =
       map (\<lambda>e. e\<lparr>e_last := False\<rparr>) ((x # xs) @ [l]) @ ins_released (ins_run m st' [] envs)"
    using u st'(4) by simp
  ultimately show ?case using st'(1,3) n by auto
qed


lemma crc_fold8:
  assumes "LiteEthMACCRC32 8 = Inr u" and "take_bit 32 r = r"
  shows "crc_fold u [r] ds = [crc_bytes r ds]"
  using assms(2)
proof (induction ds arbitrary: r)
  case Nil
  then show ?case by simp
next
  case (Cons d ds)
  have t: "take_bit 32 (crc_bytes r [d]) = crc_bytes r [d]"
    using take_bit_crc_bytes [of r "[d]"] Cons.prems by simp
  have "crc_fold u [r] (d # ds) = crc_fold u [crc_bytes r [d]] ds"
    by (simp add: crc_fold_Cons crc8(3) [OF assms(1)] Cons.prems)
  also have "\<dots> = [crc_bytes (crc_bytes r [d]) ds]" using Cons.IH [OF t] .
  also have "\<dots> = [crc_bytes r (d # ds)]" using crc_bytes_append [of r "[d]" ds] by simp
  finally show ?case .
qed

lemma packet_snoc:
  "packet (bs @ [b]) =
     map (\<lambda>x. zero_elem\<lparr>e_data := x\<rparr>) bs @ [zero_elem\<lparr>e_data := b, e_last := True\<rparr>]"
proof -
  have "map (\<lambda>i. zero_elem\<lparr>e_data := (bs @ [b]) ! i, e_last := (i + 1 = length (bs @ [b]))\<rparr>)
          [0..<length bs] = map (\<lambda>x. zero_elem\<lparr>e_data := x\<rparr>) bs"
    by (rule nth_equalityI) (simp_all add: nth_append zero_elem_def)
  then show ?thesis by (simp add: packet_def)
qed

lemma map_data_packet [simp]: "map e_data (packet bs) = bs"
  by (rule nth_equalityI) (simp_all add: packet_def)

lemma length_packet [simp]: "length (packet bs) = length bs"
  by (simp add: packet_def)

lemma packet_not_last:
  "map (\<lambda>e. e\<lparr>e_last := False\<rparr>) (packet bs) = map (\<lambda>x. zero_elem\<lparr>e_data := x\<rparr>) bs"
  by (rule nth_equalityI) (simp_all add: packet_def zero_elem_def)

lemma inserter8_stream:
  assumes "bs \<noteq> []"
  shows "ins_released (ins_run inserter8 (ins_init inserter8) (packet bs)
            (replicate (length bs + 5 + k) (True, True))) =
         map (\<lambda>x. zero_elem\<lparr>e_data := x\<rparr>) bs @ crc_chunks inserter8 (crc32_bytes bs)"
proof -
  obtain xs b where bs: "bs = xs @ [b]" using assms by (cases bs rule: rev_cases) auto
  define l where "l = zero_elem\<lparr>e_data := b, e_last := True\<rparr>"
  define ys where "ys = map (\<lambda>x. zero_elem\<lparr>e_data := x\<rparr>) xs"
  have p: "packet bs = ys @ [l]" by (simp add: bs packet_snoc ys_def l_def)
  have nl: "\<forall>x\<in>set ys. \<not> e_last x" by (auto simp: ys_def zero_elem_def)
  have ll: "e_last l" by (simp add: l_def)
  have ly: "length ys = length xs" by (simp add: ys_def)
  have pne: "packet bs \<noteq> []" using p by simp
  then obtain x rest where xr: "packet bs = x # rest" by (cases "packet bs") auto
  have env: "replicate (length bs + 5 + k) (True, True) =
      (True, True) # (replicate (length ys + 1) (True, True) @ replicate (4 + k) (True, True))"
    by (simp add: bs ly replicate_add [symmetric] del: replicate_Suc replicate_add)
       (simp add: replicate_Suc [symmetric] del: replicate_Suc)
  have i0: "i_fsm (ins_init inserter8) = ins_IDLE" by (simp add: ins_init_def)
  define e2 where "e2 = replicate (4 + k) (True, True)"
  define e1 where "e1 = replicate (length ys + 1) (True, True) @ e2"
  from ins_run_idle_start [OF i0, of inserter8 x rest True e1]
  obtain s1 where s1: "i_fsm s1 = ins_COPY" "i_regs s1 = crc_reset_regs (ins_crc inserter8)"
    "i_cnt s1 = 3"
    "ins_released (ins_run inserter8 (ins_init inserter8) (packet bs) ((True, True) # e1)) =
       ins_released (ins_run inserter8 s1 (packet bs) e1)"
    by (auto simp: xr ins_init_def)
  from ins_run_copy_phase [OF s1(1) nl ll, of inserter8 e2]
  obtain s2 where s2: "i_fsm s2 = ins_CRC"
    "i_regs s2 = crc_fold (ins_crc inserter8) (i_regs s1) (map e_data (ys @ [l]))"
    "i_cnt s2 = 3"
    "ins_released (ins_run inserter8 s1 (packet bs) e1) =
       map (\<lambda>e. e\<lparr>e_last := False\<rparr>) (packet bs) @ ins_released (ins_run inserter8 s2 [] e2)"
    by (auto simp: p e1_def s1(3))
  have r0: "crc_reset_regs (ins_crc inserter8) = [crc_init]" by (simp add: crc_reset_regs_def)
  have "map e_data (ys @ [l]) = bs" using map_data_packet [of bs] by (simp only: p)
  then have r2: "i_regs s2 = [crc_bytes crc_init bs]"
    using s2(2) crc_fold8 [OF inserter_fields(3) [OF inserter8], of crc_init bs]
    by (simp add: s1(2) r0)
  have c: "i_cnt s2 < ins_ratio inserter8" by (simp add: s2(3))
  have d: "(8::nat) = 8 \<or> (8::nat) = 16 \<or> (8::nat) = 32" by simp
  have "ins_released (ins_run inserter8 s2 [] e2) =
        ins_released (ins_run inserter8 s2 [] (map (\<lambda>r. (False, r)) (replicate (4 + k) True)))"
    using ins_run_no_pending [of inserter8 s2 e2] by (simp add: e2_def)
  also have "\<dots> = crc_chunks inserter8 (crc32_bytes bs)"
    using ins_run_crc_phase [OF inserter8 d s2(1) c, of "[]" "replicate (4 + k) True"]
    by (simp add: s2(3) r2 ins_crc8(1) crc32_bytes_def)
  finally have f: "ins_released (ins_run inserter8 s2 [] e2) = crc_chunks inserter8 (crc32_bytes bs)" .
  show ?thesis
    unfolding env e1_def [symmetric, unfolded e2_def [symmetric]]
    by (simp only: s1(4) s2(4) f packet_not_last e1_def [symmetric] e2_def [symmetric])
qed

section \<open>Runs of the checker over a packet\<close>

lemma chk_released_Cons:
  "chk_released ((out, r) # tr) =
     (if k_source_valid out \<and> r then [out] else []) @ chk_released tr"
  by (simp add: chk_released_def)

lemma chk_pulse_count_Cons:
  "chk_pulse_count ((out, r) # tr) = (if k_error out then 1 else 0) + chk_pulse_count tr"
  by (simp add: chk_pulse_count_def)

lemma chk_released_Nil [simp]: "chk_released [] = []"
  by (simp add: chk_released_def)

lemma chk_pulse_count_Nil [simp]: "chk_pulse_count [] = 0"
  by (simp add: chk_pulse_count_def)

lemma chk_released_append: "chk_released (a @ b) = chk_released a @ chk_released b"
  by (simp add: chk_released_def)

lemma chk_pulse_count_append: "chk_pulse_count (a @ b) = chk_pulse_count a + chk_pulse_count b"
  by (simp add: chk_pulse_count_def)

lemma chk_comb_not_valid:
  assumes "\<not> sink_valid inp"
  shows "\<not> k_source_valid (chk_comb m st inp)" and "\<not> k_error (chk_comb m st inp)"
    and "\<not> k_sink_ready (chk_comb m st inp)"
  using assms by (simp_all add: chk_comb_def Let_def)

lemma chk_run_quiet:
  "chk_released (chk_run m st [] envs) = [] \<and> chk_pulse_count (chk_run m st [] envs) = 0"
proof (induction envs arbitrary: st)
  case Nil
  then show ?case by simp
next
  case (Cons env envs)
  have v: "\<not> sink_valid (drive_in [] env)" by simp
  show ?case
    using Cons [of "chk_sync m st (drive_in [] env)"] chk_comb_not_valid [OF v, of m st]
    by (simp add: Let_def chk_released_Cons chk_pulse_count_Cons del: drive_in_Nil)
qed

lemma chk_step_accept:
  assumes "c_fsm st \<noteq> chk_RESET" and "length (c_fifo st) \<le> chk_ratio m" and "1 \<le> chk_ratio m"
    and inp: "inp = \<lparr>sink_valid = True, sink = x, source_ready = True\<rparr>"
  shows "k_sink_ready (chk_comb m st inp)"
    and "k_source_valid (chk_comb m st inp) = (length (c_fifo st) = chk_ratio m)"
    and "k_source_payload (chk_comb m st inp) = (case c_fifo st of [] \<Rightarrow> None | h # _ \<Rightarrow> Some h)"
    and "k_source_last (chk_comb m st inp) = e_last x"
    and "k_source_error (chk_comb m st inp) =
           (e_error x \<or> crc_error (chk_crc m) (c_regs st) (e_data x) 0)"
    and "k_error (chk_comb m st inp) =
           (length (c_fifo st) = chk_ratio m \<and> e_last x \<and>
            crc_error (chk_crc m) (c_regs st) (e_data x) 0)"
    and "c_regs (chk_sync m st inp) = crc_sync (chk_crc m) False True (e_data x) (c_regs st)"
    and "c_fifo (chk_sync m st inp) =
           (if length (c_fifo st) = chk_ratio m then tl (c_fifo st) else c_fifo st) @ [x]"
    and "c_fsm (chk_sync m st inp) =
           (if c_fsm st = chk_COPY \<and> e_last x then chk_RESET else chk_COPY)"
proof -
  show "k_sink_ready (chk_comb m st inp)" by (auto simp: chk_comb_def Let_def inp)
  show "k_source_valid (chk_comb m st inp) = (length (c_fifo st) = chk_ratio m)"
    by (simp add: chk_comb_def Let_def inp)
  show "k_source_payload (chk_comb m st inp) = (case c_fifo st of [] \<Rightarrow> None | h # _ \<Rightarrow> Some h)"
    by (simp add: chk_comb_def Let_def)
  show "k_source_last (chk_comb m st inp) = e_last x" by (simp add: chk_comb_def Let_def inp)
  show "k_source_error (chk_comb m st inp) =
           (e_error x \<or> crc_error (chk_crc m) (c_regs st) (e_data x) 0)"
    by (simp add: chk_comb_def Let_def inp)
  show "k_error (chk_comb m st inp) =
           (length (c_fifo st) = chk_ratio m \<and> e_last x \<and>
            crc_error (chk_crc m) (c_regs st) (e_data x) 0)"
    by (simp add: chk_comb_def Let_def inp)
  show "c_regs (chk_sync m st inp) = crc_sync (chk_crc m) False True (e_data x) (c_regs st)"
    using assms(1) by (auto simp: chk_comb_def Let_def inp)
  show "c_fifo (chk_sync m st inp) =
           (if length (c_fifo st) = chk_ratio m then tl (c_fifo st) else c_fifo st) @ [x]"
    using assms(1,2,3) by (auto simp: chk_comb_def Let_def inp fifo_sync_def)
  show "c_fsm (chk_sync m st inp) =
           (if c_fsm st = chk_COPY \<and> e_last x then chk_RESET else chk_COPY)"
    using assms(1) by (cases "c_fsm st") (auto simp: chk_next_fsm_def chk_comb_def Let_def inp)
qed

lemma chk_run_accept:
  assumes "c_fsm st \<noteq> chk_RESET" and "length (c_fifo st) \<le> chk_ratio m" and "1 \<le> chk_ratio m"
    and inp: "inp = \<lparr>sink_valid = True, sink = x, source_ready = True\<rparr>"
  shows "chk_run m st (x # rest) ((True, True) # envs) =
           (chk_comb m st inp, True) # chk_run m (chk_sync m st inp) rest envs"
  using chk_step_accept(1) [OF assms] by (simp add: Let_def inp)

declare chk_run.simps(2) [simp del]

lemma chk_step_invariant:
  assumes "c_fsm st \<noteq> chk_RESET" and "length (c_fifo st) \<le> chk_ratio m" and "1 \<le> chk_ratio m"
    and inp: "inp = \<lparr>sink_valid = True, sink = x, source_ready = True\<rparr>"
  shows "length (c_fifo (chk_sync m st inp)) \<le> chk_ratio m"
    and "\<not> e_last x \<Longrightarrow> c_fsm (chk_sync m st inp) \<noteq> chk_RESET"
    and "length (c_fifo (chk_sync m st inp)) =
           (if length (c_fifo st) = chk_ratio m then chk_ratio m else length (c_fifo st) + 1)"
  using assms(2,3) chk_step_accept(8,9) [OF assms] by auto

lemma chk_run_packet_payload:
  assumes "c_fsm st \<noteq> chk_RESET" and "length (c_fifo st) \<le> chk_ratio m" and "1 \<le> chk_ratio m"
    and "\<forall>x\<in>set xs. \<not> e_last x"
  shows "map k_source_payload
           (chk_released (chk_run m st (xs @ [l]) (replicate (length xs + 1 + k) (True, True)))) =
         map Some (take (length (c_fifo st) + length xs + 1 - chk_ratio m) (c_fifo st @ xs))"
  using assms(1,2,4)
proof (induction xs arbitrary: st)
  case Nil
  define inp where "inp = \<lparr>sink_valid = True, sink = l, source_ready = True\<rparr>"
  note acc = chk_step_accept [OF Nil.prems(1,2) assms(3) inp_def]
  have run: "chk_run m st ([] @ [l]) (replicate (length ([]::stream_elem list) + 1 + k) (True, True)) =
      (chk_comb m st inp, True) # chk_run m (chk_sync m st inp) [] (replicate k (True, True))"
    using chk_run_accept [OF Nil.prems(1,2) assms(3) inp_def] by simp
  show ?case
  proof (cases "length (c_fifo st) = chk_ratio m")
    case True
    then obtain h t where q: "c_fifo st = h # t" using assms(3) by (cases "c_fifo st") auto
    show ?thesis unfolding run
      using True acc(2,3) chk_run_quiet [of m "chk_sync m st inp"]
      by (simp add: chk_released_Cons q)
  next
    case False
    then show ?thesis unfolding run
      using acc(2) Nil.prems(2) chk_run_quiet [of m "chk_sync m st inp"]
      by (simp add: chk_released_Cons)
  qed
next
  case (Cons x xs)
  define inp where "inp = \<lparr>sink_valid = True, sink = x, source_ready = True\<rparr>"
  define st' where "st' = chk_sync m st inp"
  note acc = chk_step_accept [OF Cons.prems(1,2) assms(3) inp_def, folded st'_def]
  note inv = chk_step_invariant [OF Cons.prems(1,2) assms(3) inp_def, folded st'_def]
  have nl: "\<not> e_last x" using Cons.prems(3) by simp
  have run: "chk_run m st ((x # xs) @ [l]) (replicate (length (x # xs) + 1 + k) (True, True)) =
      (chk_comb m st inp, True) # chk_run m st' (xs @ [l]) (replicate (length xs + 1 + k) (True, True))"
    using chk_run_accept [OF Cons.prems(1,2) assms(3) inp_def] by (simp add: st'_def)
  have ih: "map k_source_payload
           (chk_released (chk_run m st' (xs @ [l]) (replicate (length xs + 1 + k) (True, True)))) =
         map Some (take (length (c_fifo st') + length xs + 1 - chk_ratio m) (c_fifo st' @ xs))"
    using Cons.IH [OF inv(2) [OF nl] inv(1)] Cons.prems(3) by simp
  show ?case
  proof (cases "length (c_fifo st) = chk_ratio m")
    case True
    then obtain h t where q: "c_fifo st = h # t" using assms(3) by (cases "c_fifo st") auto
    have l': "length (c_fifo st') = chk_ratio m" using inv(3) True by simp
    have "length (c_fifo st) + length (x # xs) + 1 - chk_ratio m = Suc (length (c_fifo st') + length xs + 1 - chk_ratio m)"
      using True l' by simp
    then show ?thesis unfolding run
      using True acc(2,3) ih acc(8) by (simp add: chk_released_Cons q)
  next
    case False
    have l': "length (c_fifo st') = length (c_fifo st) + 1" using inv(3) False by simp
    show ?thesis unfolding run
      using False acc(2) ih acc(8) l' by (simp add: chk_released_Cons)
  qed
qed

lemma chk_run_packet_last:
  assumes "c_fsm st \<noteq> chk_RESET" and "length (c_fifo st) \<le> chk_ratio m" and "1 \<le> chk_ratio m"
    and "\<forall>x\<in>set xs. \<not> e_last x" and "e_last l"
  shows "map k_source_last
           (chk_released (chk_run m st (xs @ [l]) (replicate (length xs + 1 + k) (True, True)))) =
         replicate (length (c_fifo st) + length xs - chk_ratio m) False @
         (if length (c_fifo st) + length xs < chk_ratio m then [] else [True])"
  using assms(1,2,4)
proof (induction xs arbitrary: st)
  case Nil
  define inp where "inp = \<lparr>sink_valid = True, sink = l, source_ready = True\<rparr>"
  note acc = chk_step_accept [OF Nil.prems(1,2) assms(3) inp_def]
  have run: "chk_run m st ([] @ [l]) (replicate (length ([]::stream_elem list) + 1 + k) (True, True)) =
      (chk_comb m st inp, True) # chk_run m (chk_sync m st inp) [] (replicate k (True, True))"
    using chk_run_accept [OF Nil.prems(1,2) assms(3) inp_def] by simp
  show ?case unfolding run
    using acc(2,4) Nil.prems(2) assms(5) chk_run_quiet [of m "chk_sync m st inp"]
    by (auto simp: chk_released_Cons)
next
  case (Cons x xs)
  define inp where "inp = \<lparr>sink_valid = True, sink = x, source_ready = True\<rparr>"
  define st' where "st' = chk_sync m st inp"
  note acc = chk_step_accept [OF Cons.prems(1,2) assms(3) inp_def, folded st'_def]
  note inv = chk_step_invariant [OF Cons.prems(1,2) assms(3) inp_def, folded st'_def]
  have nl: "\<not> e_last x" using Cons.prems(3) by simp
  have run: "chk_run m st ((x # xs) @ [l]) (replicate (length (x # xs) + 1 + k) (True, True)) =
      (chk_comb m st inp, True) # chk_run m st' (xs @ [l]) (replicate (length xs + 1 + k) (True, True))"
    using chk_run_accept [OF Cons.prems(1,2) assms(3) inp_def] by (simp add: st'_def)
  have ih: "map k_source_last
           (chk_released (chk_run m st' (xs @ [l]) (replicate (length xs + 1 + k) (True, True)))) =
         replicate (length (c_fifo st') + length xs - chk_ratio m) False @
         (if length (c_fifo st') + length xs < chk_ratio m then [] else [True])"
    using Cons.IH [OF inv(2) [OF nl] inv(1)] Cons.prems(3) by simp
  show ?case
  proof (cases "length (c_fifo st) = chk_ratio m")
    case True
    have l': "length (c_fifo st') = chk_ratio m" using inv(3) True by simp
    show ?thesis unfolding run
      using True acc(2,4) ih nl l' by (simp add: chk_released_Cons)
  next
    case False
    have l': "length (c_fifo st') = length (c_fifo st) + 1" using inv(3) False by simp
    show ?thesis unfolding run
      using False acc(2) ih l' by (simp add: chk_released_Cons)
  qed
qed

lemma chk_run_packet_error:
  assumes "c_fsm st \<noteq> chk_RESET" and "length (c_fifo st) \<le> chk_ratio m" and "1 \<le> chk_ratio m"
    and "\<forall>x\<in>set xs. \<not> e_last x" and "chk_ratio m \<le> length (c_fifo st) + length xs"
  shows "k_source_error (last
           (chk_released (chk_run m st (xs @ [l]) (replicate (length xs + 1 + k) (True, True))))) =
         (e_error l \<or> crc_error (chk_crc m) (crc_fold (chk_crc m) (c_regs st) (map e_data xs))
                          (e_data l) 0)"
  using assms(1,2,4,5)
proof (induction xs arbitrary: st)
  case Nil
  define inp where "inp = \<lparr>sink_valid = True, sink = l, source_ready = True\<rparr>"
  note acc = chk_step_accept [OF Nil.prems(1,2) assms(3) inp_def]
  have run: "chk_run m st ([] @ [l]) (replicate (length ([]::stream_elem list) + 1 + k) (True, True)) =
      (chk_comb m st inp, True) # chk_run m (chk_sync m st inp) [] (replicate k (True, True))"
    using chk_run_accept [OF Nil.prems(1,2) assms(3) inp_def] by simp
  show ?case unfolding run
    using acc(2,5) Nil.prems(2,4) chk_run_quiet [of m "chk_sync m st inp"]
    by (simp add: chk_released_Cons)
next
  case (Cons x xs)
  define inp where "inp = \<lparr>sink_valid = True, sink = x, source_ready = True\<rparr>"
  define st' where "st' = chk_sync m st inp"
  define tr' where "tr' = chk_run m st' (xs @ [l]) (replicate (length xs + 1 + k) (True, True))"
  note acc = chk_step_accept [OF Cons.prems(1,2) assms(3) inp_def, folded st'_def]
  note inv = chk_step_invariant [OF Cons.prems(1,2) assms(3) inp_def, folded st'_def]
  have nl: "\<not> e_last x" using Cons.prems(3) by simp
  have run: "chk_run m st ((x # xs) @ [l]) (replicate (length (x # xs) + 1 + k) (True, True)) =
      (chk_comb m st inp, True) # tr'"
    using chk_run_accept [OF Cons.prems(1,2) assms(3) inp_def] by (simp add: st'_def tr'_def)
  have ge: "chk_ratio m \<le> length (c_fifo st') + length xs"
    using inv(3) Cons.prems(2,4) by (auto split: if_splits)
  have ih: "k_source_error (last (chk_released tr')) =
         (e_error l \<or> crc_error (chk_crc m) (crc_fold (chk_crc m) (c_regs st') (map e_data xs))
                          (e_data l) 0)"
    using Cons.IH [OF inv(2) [OF nl] inv(1) _ ge] Cons.prems(3) by (simp add: tr'_def)
  have nls: "\<forall>x\<in>set xs. \<not> e_last x" using Cons.prems(3) by simp
  have "length (map k_source_payload (chk_released tr')) =
        length (map Some (take (length (c_fifo st') + length xs + 1 - chk_ratio m) (c_fifo st' @ xs)))"
    using chk_run_packet_payload [OF inv(2) [OF nl] inv(1) assms(3) nls, of l k]
    by (simp only: tr'_def)
  then have "length (chk_released tr') =
      min (length (c_fifo st' @ xs)) (length (c_fifo st') + length xs + 1 - chk_ratio m)"
    by (simp only: length_map length_take)
  then have "length (chk_released tr') \<noteq> 0" using ge assms(3) by (auto simp: min_def)
  then have ne: "chk_released tr' \<noteq> []" by auto
  show ?case unfolding run
    using ne ih acc(7) by (simp add: chk_released_Cons crc_fold_Cons)
qed

lemma chk_run_packet_pulse:
  assumes "c_fsm st \<noteq> chk_RESET" and "length (c_fifo st) \<le> chk_ratio m" and "1 \<le> chk_ratio m"
    and "\<forall>x\<in>set xs. \<not> e_last x"
  shows "chk_pulse_count (chk_run m st (xs @ [l]) (replicate (length xs + 1 + k) (True, True))) =
         (if chk_ratio m \<le> length (c_fifo st) + length xs \<and> e_last l \<and>
             crc_error (chk_crc m) (crc_fold (chk_crc m) (c_regs st) (map e_data xs)) (e_data l) 0
          then 1 else 0)"
  using assms(1,2,4)
proof (induction xs arbitrary: st)
  case Nil
  define inp where "inp = \<lparr>sink_valid = True, sink = l, source_ready = True\<rparr>"
  note acc = chk_step_accept [OF Nil.prems(1,2) assms(3) inp_def]
  have run: "chk_run m st ([] @ [l]) (replicate (length ([]::stream_elem list) + 1 + k) (True, True)) =
      (chk_comb m st inp, True) # chk_run m (chk_sync m st inp) [] (replicate k (True, True))"
    using chk_run_accept [OF Nil.prems(1,2) assms(3) inp_def] by simp
  show ?case unfolding run
    using acc(6) Nil.prems(2) chk_run_quiet [of m "chk_sync m st inp"]
    by (auto simp: chk_pulse_count_Cons)
next
  case (Cons x xs)
  define inp where "inp = \<lparr>sink_valid = True, sink = x, source_ready = True\<rparr>"
  define st' where "st' = chk_sync m st inp"
  define tr' where "tr' = chk_run m st' (xs @ [l]) (replicate (length xs + 1 + k) (True, True))"
  note acc = chk_step_accept [OF Cons.prems(1,2) assms(3) inp_def, folded st'_def]
  note inv = chk_step_invariant [OF Cons.prems(1,2) assms(3) inp_def, folded st'_def]
  have nl: "\<not> e_last x" using Cons.prems(3) by simp
  have nls: "\<forall>x\<in>set xs. \<not> e_last x" using Cons.prems(3) by simp
  have run: "chk_run m st ((x # xs) @ [l]) (replicate (length (x # xs) + 1 + k) (True, True)) =
      (chk_comb m st inp, True) # tr'"
    using chk_run_accept [OF Cons.prems(1,2) assms(3) inp_def] by (simp add: st'_def tr'_def)
  have ge: "(chk_ratio m \<le> length (c_fifo st') + length xs) =
            (chk_ratio m \<le> length (c_fifo st) + length (x # xs))"
    using inv(3) Cons.prems(2) by (auto split: if_splits)
  have ih: "chk_pulse_count tr' =
         (if chk_ratio m \<le> length (c_fifo st') + length xs \<and> e_last l \<and>
             crc_error (chk_crc m) (crc_fold (chk_crc m) (c_regs st') (map e_data xs)) (e_data l) 0
          then 1 else 0)"
    using Cons.IH [OF inv(2) [OF nl] inv(1) nls] by (simp only: tr'_def)
  have np: "\<not> k_error (chk_comb m st inp)" using acc(6) nl by simp
  show ?case unfolding run
    using np ih acc(7) ge by (simp add: chk_pulse_count_Cons crc_fold_Cons)
qed


section \<open>The residue of a packet that ends with its CRC\<close>

lemma lfsr_serial_snoc:
  "lfsr_serial N P s (bs @ [b]) = lfsr_shift N P (lfsr_serial N P s bs) b"
  by (simp add: lfsr_serial_def)

lemma bit_times_2_int: "bit (s * 2 :: int) k = (k \<noteq> 0 \<and> bit s (k - 1))"
  using bit_double_iff [of s k] by (simp add: mult.commute)

lemma lfsr_shift_complement:
  assumes "k < 32"
  shows "lfsr_shift 32 P (take_bit 32 (push_bit k r) XOR c) (\<not> bit r (31 - k)) =
         take_bit 32 (push_bit (Suc k) r) XOR lfsr_shift 32 P c True"
proof (rule bit_eqI)
  fix j
  define A where "A = take_bit 32 (push_bit k r)"
  define B where "B = take_bit 32 (push_bit (Suc k) r)"
  define F where "F = (\<not> bit c 31)"
  have a: "bit A i = (i < 32 \<and> k \<le> i \<and> bit r (i - k))" for i
    by (auto simp: A_def bit_take_bit_iff bit_push_bit_iff)
  have b: "bit B i = (i < 32 \<and> Suc k \<le> i \<and> bit r (i - Suc k))" for i
    unfolding B_def bit_take_bit_iff bit_push_bit_iff by auto
  have t: "bit (A XOR c) 31 = (bit r (31 - k) \<noteq> bit c 31)"
    using assms by (simp add: bit_xor_iff a)
  have fb: "((bit A (32 - 1) \<noteq> bit c (32 - 1)) \<noteq> (\<not> bit r (31 - k))) = F"
    using t by (auto simp: F_def bit_xor_iff)
  have fc: "(bit c (32 - 1) \<noteq> True) = F" by (simp add: F_def)
  have L: "bit (lfsr_shift 32 P (A XOR c) (\<not> bit r (31 - k))) j =
      (j < 32 \<and> (if j = 0 then F else ((bit A (j - 1) \<noteq> bit c (j - 1)) \<noteq> (bit P j \<and> F))))"
    unfolding bit_lfsr_shift bit_xor_iff fb ..
  have R: "bit (B XOR lfsr_shift 32 P c True) j =
      (bit B j \<noteq> (j < 32 \<and> (if j = 0 then F else (bit c (j - 1) \<noteq> (bit P j \<and> F)))))"
    unfolding bit_xor_iff bit_lfsr_shift fc ..
  have "bit (lfsr_shift 32 P (A XOR c) (\<not> bit r (31 - k))) j = bit (B XOR lfsr_shift 32 P c True) j"
  proof (cases j)
    case 0
    have "\<not> bit B j" unfolding b 0 by simp
    then show ?thesis unfolding L R using 0 by simp
  next
    case (Suc i)
    have "bit B j = (j < 32 \<and> bit A (j - 1))" unfolding a b Suc by auto
    then show ?thesis unfolding L R using Suc by auto
  qed
  then show "bit (lfsr_shift 32 P (take_bit 32 (push_bit k r) XOR c) (\<not> bit r (31 - k))) j =
        bit (take_bit 32 (push_bit (Suc k) r) XOR lfsr_shift 32 P c True) j"
    by (simp only: A_def B_def)
qed

lemma lfsr_serial_complement:
  assumes "k \<le> 32"
  shows "take_bit 32 (lfsr_serial 32 P r (map (\<lambda>i. \<not> bit r (31 - i)) [0..<k])) =
         take_bit 32 (push_bit k r) XOR lfsr_serial 32 P 0 (replicate k True)"
  using assms
proof (induction k)
  case 0
  then show ?case by (simp add: lfsr_serial_def)
next
  case (Suc k)
  define X where "X = lfsr_serial 32 P r (map (\<lambda>i. \<not> bit r (31 - i)) [0..<k])"
  define C where "C = lfsr_serial 32 P 0 (replicate k True)"
  have ih: "take_bit 32 X = take_bit 32 (push_bit k r) XOR C"
    using Suc by (simp add: X_def C_def)
  have k: "k < 32" using Suc.prems by simp
  have "lfsr_serial 32 P r (map (\<lambda>i. \<not> bit r (31 - i)) [0..<Suc k]) =
        lfsr_shift 32 P X (\<not> bit r (31 - k))"
    by (simp add: X_def lfsr_serial_snoc)
  also have "\<dots> = lfsr_shift 32 P (take_bit 32 X) (\<not> bit r (31 - k))"
    by (simp only: lfsr_shift_take_bit)
  also have "\<dots> = take_bit 32 (push_bit (Suc k) r) XOR lfsr_shift 32 P C True"
    unfolding ih by (rule lfsr_shift_complement [OF k])
  also have "lfsr_shift 32 P C True = lfsr_serial 32 P 0 (replicate (Suc k) True)"
    unfolding C_def lfsr_serial_snoc [symmetric] by (simp add: replicate_append_same)
  finally have e: "lfsr_serial 32 P r (map (\<lambda>i. \<not> bit r (31 - i)) [0..<Suc k]) =
     take_bit 32 (push_bit (Suc k) r) XOR lfsr_serial 32 P 0 (replicate (Suc k) True)" .
  have "take_bit 32 (lfsr_serial 32 P r (map (\<lambda>i. \<not> bit r (31 - i)) [0..<Suc k])) =
        lfsr_serial 32 P r (map (\<lambda>i. \<not> bit r (31 - i)) [0..<Suc k])"
    unfolding upt_Suc_append [OF le0] map_append lfsr_serial_snoc list.map
    by (rule take_bit_lfsr_shift)
  with e show ?case by simp
qed

lemma residue_constant:
  "lfsr_serial 32 crc_polynom 0 (replicate 32 True) = crc_check"
  by code_simp
lemma upt_32: "[0..<32] = [0,1,2,3,4,5,6,7,8,9,10,11,12,13,14,15,16,17,18,19,20,21,22,23,24,25,26,27,28,29,30,31]"
  by code_simp

lemma upt_8: "[0..<8] = [0,1,2,3,4,5,6,7]"
  by code_simp

lemma upt_4: "[0..<4] = [0,1,2,3]"
  by code_simp

lemma chunk_bits8:
  "concat (map byte_bits (map e_data (crc_chunks inserter8 v))) = map (bit v) [0..<32]"
  unfolding crc_chunks_def inserter8_fields upt_32 upt_4 byte_bits_def upt_8
  by (simp add: bit_take_bit_iff bit_drop_bit_eq)

lemma value_bits:
  "map (bit (take_bit 32 (NOT (reverse_bits 32 r)))) [0..<32] = map (\<lambda>i. \<not> bit r (31 - i)) [0..<32]"
  by (simp add: bit_take_bit_iff bit_not_iff reverse_bits_def bit_horner_sum_bit_iff)

lemma crc8_residue:
  assumes "take_bit 32 r = r"
  shows "crc_bytes r (map e_data (crc_chunks inserter8 (take_bit 32 (NOT (reverse_bits 32 r))))) =
         crc_check"
proof -
  have "crc_bytes r (map e_data (crc_chunks inserter8 (take_bit 32 (NOT (reverse_bits 32 r))))) =
        lfsr_serial 32 crc_polynom r (map (\<lambda>i. \<not> bit r (31 - i)) [0..<32])"
    unfolding crc_bytes_def chunk_bits8 value_bits by (simp add: crc_width_def)
  also have "\<dots> = take_bit 32 (lfsr_serial 32 crc_polynom r (map (\<lambda>i. \<not> bit r (31 - i)) [0..<32]))"
    unfolding take_bit_lfsr_serial assms ..
  also have "\<dots> = take_bit 32 (push_bit 32 r) XOR lfsr_serial 32 crc_polynom 0 (replicate 32 True)"
    by (rule lfsr_serial_complement) simp
  also have "\<dots> = crc_check"
    unfolding residue_constant by (simp add: take_bit_push_bit)
  finally show ?thesis .
qed

lemma chk_run_reset_cycle:
  assumes "c_fsm st = chk_RESET"
  shows "\<exists>out st'. chk_run m st pend ((False, r) # envs) = (out, r) # chk_run m st' pend envs \<and>
           \<not> k_source_valid out \<and> \<not> k_error out \<and>
           c_fsm st' = chk_IDLE \<and> c_regs st' = crc_reset_regs (chk_crc m) \<and> c_fifo st' = []"
proof -
  define inp where "inp = drive_in pend (False, r)"
  have v: "\<not> sink_valid inp" by (simp add: inp_def drive_in_def split: list.splits)
  note q = chk_comb_not_valid [OF v, of m st]
  have "chk_run m st pend ((False, r) # envs) =
          (chk_comb m st inp, r) # chk_run m (chk_sync m st inp) pend envs"
    using v by (simp add: chk_run.simps(2) Let_def inp_def [symmetric])
  moreover have "c_fsm (chk_sync m st inp) = chk_IDLE"
    using assms by (simp add: chk_next_fsm_def)
  moreover have "c_regs (chk_sync m st inp) = crc_reset_regs (chk_crc m)"
    using assms by (simp add: chk_comb_def Let_def crc_sync_def)
  moreover have "c_fifo (chk_sync m st inp) = []"
    using assms by (simp add: chk_comb_def Let_def fifo_sync_def)
  ultimately show ?thesis using q(1,2) by blast
qed

lemma crc_chunks8:
  "crc_chunks inserter8 v =
     [zero_elem\<lparr>e_data := take_bit 8 v\<rparr>,
      zero_elem\<lparr>e_data := take_bit 8 (drop_bit 8 v)\<rparr>,
      zero_elem\<lparr>e_data := take_bit 8 (drop_bit 16 v)\<rparr>] @
     [zero_elem\<lparr>e_data := take_bit 8 (drop_bit 24 v), e_last := True\<rparr>]"
  unfolding crc_chunks_def inserter8_fields upt_4 by (simp add: zero_elem_def)

lemma checker8_crc_error:
  "crc_error (chk_crc checker8) (crc_fold (chk_crc checker8) [crc_init] ds) d 0 =
     (crc_bytes crc_init (ds @ [d]) \<noteq> crc_check)"
proof -
  have "crc_fold (chk_crc checker8) [crc_init] ds = [crc_bytes crc_init ds]"
    by (rule crc_fold8 [OF checker_fields(3) [OF checker8]]) simp
  moreover have "take_bit 32 (crc_bytes crc_init ds) = crc_bytes crc_init ds"
    by (simp add: take_bit_crc_bytes)
  ultimately show ?thesis by (simp add: chk_crc8(2) crc_bytes_append)
qed

lemma checker8_packet:
  assumes nl: "\<forall>x\<in>set xs. \<not> e_last x" and ll: "e_last l" and len: "4 \<le> length xs"
  shows "map k_source_payload (chk_released (chk_run checker8 (chk_init checker8) (xs @ [l])
            ((False, True) # replicate (length xs + 1 + k) (True, True)))) =
         map Some (take (length xs - 3) xs)"
    and "map k_source_last (chk_released (chk_run checker8 (chk_init checker8) (xs @ [l])
            ((False, True) # replicate (length xs + 1 + k) (True, True)))) =
         replicate (length xs - 4) False @ [True]"
    and "k_source_error (last (chk_released (chk_run checker8 (chk_init checker8) (xs @ [l])
            ((False, True) # replicate (length xs + 1 + k) (True, True))))) =
         (e_error l \<or> crc_bytes crc_init (map e_data (xs @ [l])) \<noteq> crc_check)"
    and "chk_pulse_count (chk_run checker8 (chk_init checker8) (xs @ [l])
            ((False, True) # replicate (length xs + 1 + k) (True, True))) =
         (if crc_bytes crc_init (map e_data (xs @ [l])) \<noteq> crc_check then 1 else 0)"
proof -
  define envs where "envs = replicate (length xs + 1 + k) (True, True)"
  have i0: "c_fsm (chk_init checker8) = chk_RESET" by (simp add: chk_init_def)
  from chk_run_reset_cycle [OF i0, of checker8 "xs @ [l]" True envs]
  obtain out st where st: "chk_run checker8 (chk_init checker8) (xs @ [l]) ((False, True) # envs) =
      (out, True) # chk_run checker8 st (xs @ [l]) envs"
    "\<not> k_source_valid out" "\<not> k_error out" "c_fsm st = chk_IDLE"
    "c_regs st = crc_reset_regs (chk_crc checker8)" "c_fifo st = []"
    by blast
  have r0: "c_regs st = [crc_init]" by (simp add: st(5) crc_reset_regs_def)
  have a: "c_fsm st \<noteq> chk_RESET" by (simp add: st(4))
  have b: "length (c_fifo st) \<le> chk_ratio checker8" by (simp add: st(6))
  have c: "1 \<le> chk_ratio checker8" by simp
  have d: "chk_ratio checker8 \<le> length (c_fifo st) + length xs" using len by (simp add: st(6))
  have rel: "chk_released ((out, True) # chk_run checker8 st (xs @ [l]) envs) =
             chk_released (chk_run checker8 st (xs @ [l]) envs)"
    using st(2) by (simp add: chk_released_Cons)
  have pc: "chk_pulse_count ((out, True) # chk_run checker8 st (xs @ [l]) envs) =
             chk_pulse_count (chk_run checker8 st (xs @ [l]) envs)"
    using st(3) by (simp add: chk_pulse_count_Cons)
  have e: "crc_error (chk_crc checker8) (crc_fold (chk_crc checker8) (c_regs st) (map e_data xs))
             (e_data l) 0 = (crc_bytes crc_init (map e_data (xs @ [l])) \<noteq> crc_check)"
    unfolding r0 checker8_crc_error by simp
  show "map k_source_payload (chk_released (chk_run checker8 (chk_init checker8) (xs @ [l])
            ((False, True) # replicate (length xs + 1 + k) (True, True)))) =
         map Some (take (length xs - 3) xs)"
    unfolding envs_def [symmetric] st(1) rel
    using chk_run_packet_payload [OF a b c nl, of l k] len
    by (simp add: envs_def st(6))
  show "map k_source_last (chk_released (chk_run checker8 (chk_init checker8) (xs @ [l])
            ((False, True) # replicate (length xs + 1 + k) (True, True)))) =
         replicate (length xs - 4) False @ [True]"
    unfolding envs_def [symmetric] st(1) rel
    using chk_run_packet_last [OF a b c nl ll, of k] len
    by (simp add: envs_def st(6))
  show "k_source_error (last (chk_released (chk_run checker8 (chk_init checker8) (xs @ [l])
            ((False, True) # replicate (length xs + 1 + k) (True, True))))) =
         (e_error l \<or> crc_bytes crc_init (map e_data (xs @ [l])) \<noteq> crc_check)"
    unfolding envs_def [symmetric] st(1) rel
    using chk_run_packet_error [OF a b c nl d, of l k] e
    by (simp only: envs_def)
  show "chk_pulse_count (chk_run checker8 (chk_init checker8) (xs @ [l])
            ((False, True) # replicate (length xs + 1 + k) (True, True))) =
         (if crc_bytes crc_init (map e_data (xs @ [l])) \<noteq> crc_check then 1 else 0)"
    unfolding envs_def [symmetric] st(1) pc
    using chk_run_packet_pulse [OF a b c nl, of l k] e d ll
    by (simp only: envs_def simp_thms if_True)
qed


section \<open>The inserter followed by the checker\<close>

lemma round_trip8:
  assumes "bs \<noteq> []"
  shows "LiteEthMACCRC32Inserter 8 = Inr inserter8 \<and> LiteEthMACCRC32Checker 8 = Inr checker8 \<and>
         map (map_option e_data \<circ> k_source_payload)
           (chk_released (chk_run checker8 (chk_init checker8)
              (ins_released (ins_run inserter8 (ins_init inserter8) (packet bs)
                 (replicate (length bs + 5 + i) (True, True))))
              ((False, True) # replicate (length bs + 4 + j) (True, True)))) = map Some bs \<and>
         map k_source_last
           (chk_released (chk_run checker8 (chk_init checker8)
              (ins_released (ins_run inserter8 (ins_init inserter8) (packet bs)
                 (replicate (length bs + 5 + i) (True, True))))
              ((False, True) # replicate (length bs + 4 + j) (True, True)))) =
           replicate (length bs - 1) False @ [True] \<and>
         \<not> k_source_error (last
           (chk_released (chk_run checker8 (chk_init checker8)
              (ins_released (ins_run inserter8 (ins_init inserter8) (packet bs)
                 (replicate (length bs + 5 + i) (True, True))))
              ((False, True) # replicate (length bs + 4 + j) (True, True))))) \<and>
         chk_pulse_count
           (chk_run checker8 (chk_init checker8)
              (ins_released (ins_run inserter8 (ins_init inserter8) (packet bs)
                 (replicate (length bs + 5 + i) (True, True))))
              ((False, True) # replicate (length bs + 4 + j) (True, True))) = 0"
proof -
  define v where "v = crc32_bytes bs"
  define ys where "ys = map (\<lambda>x. zero_elem\<lparr>e_data := x\<rparr>) bs"
  define xs where "xs = ys @ [zero_elem\<lparr>e_data := take_bit 8 v\<rparr>,
      zero_elem\<lparr>e_data := take_bit 8 (drop_bit 8 v)\<rparr>,
      zero_elem\<lparr>e_data := take_bit 8 (drop_bit 16 v)\<rparr>]"
  define l where "l = zero_elem\<lparr>e_data := take_bit 8 (drop_bit 24 v), e_last := True\<rparr>"
  have stream: "ins_released (ins_run inserter8 (ins_init inserter8) (packet bs)
                 (replicate (length bs + 5 + i) (True, True))) = xs @ [l]"
    unfolding inserter8_stream [OF assms] crc_chunks8 v_def [symmetric]
    by (simp add: xs_def ys_def l_def)
  have lx: "length xs = length bs + 3" by (simp add: xs_def ys_def)
  have env: "replicate (length bs + 4 + j) (True, True) = replicate (length xs + 1 + j) (True, True)"
    by (simp add: lx)
  have nl: "\<forall>x\<in>set xs. \<not> e_last x" by (auto simp: xs_def ys_def zero_elem_def)
  have ll: "e_last l" by (simp add: l_def)
  have len: "4 \<le> length xs" using assms by (cases bs) (simp_all add: lx)
  have dat: "map e_data (xs @ [l]) = bs @ map e_data (crc_chunks inserter8 v)"
    unfolding crc_chunks8 by (simp add: xs_def ys_def l_def comp_def)
  have t: "take_bit 32 (crc_bytes crc_init bs) = crc_bytes crc_init bs"
    by (simp add: take_bit_crc_bytes)
  have res: "crc_bytes crc_init (map e_data (xs @ [l])) = crc_check"
    unfolding dat crc_bytes_append v_def crc32_bytes_def by (rule crc8_residue [OF t])
  have tk: "take (length xs - 3) xs = ys" by (simp add: xs_def ys_def)
  note p = checker8_packet [OF nl ll len, of j, folded env]
  have a: "map (map_option e_data \<circ> k_source_payload)
           (chk_released (chk_run checker8 (chk_init checker8) (xs @ [l])
              ((False, True) # replicate (length bs + 4 + j) (True, True)))) = map Some bs"
    using arg_cong [OF p(1), of "map (map_option e_data)"]
    by (simp add: tk ys_def comp_def)
  have b: "map k_source_last
           (chk_released (chk_run checker8 (chk_init checker8) (xs @ [l])
              ((False, True) # replicate (length bs + 4 + j) (True, True)))) =
           replicate (length bs - 1) False @ [True]"
    using p(2) by (simp add: lx)
  have c: "\<not> k_source_error (last
           (chk_released (chk_run checker8 (chk_init checker8) (xs @ [l])
              ((False, True) # replicate (length bs + 4 + j) (True, True)))))"
    using p(3) res by (simp add: l_def zero_elem_def)
  have d: "chk_pulse_count
           (chk_run checker8 (chk_init checker8) (xs @ [l])
              ((False, True) # replicate (length bs + 4 + j) (True, True))) = 0"
    using p(4) res by simp
  show ?thesis unfolding stream by (intro conjI inserter8 checker8 a b c d)
qed


section \<open>Reachable states of the checker\<close>

lemma crc_fold_snoc: "crc_fold u regs (ds @ [d]) = crc_sync u False True d (crc_fold u regs ds)"
  by (simp add: crc_fold_def)

lemma chk_trace_invariant:
  assumes "chk_trace m st h" and "1 \<le> chk_ratio m"
  shows "c_fifo st = drop (length h - chk_ratio m) h \<and>
         c_regs st = crc_fold (chk_crc m) (crc_reset_regs (chk_crc m)) (map e_data h)"
  using assms(1)
proof (induction rule: chk_trace.induct)
  case trace_init
  show ?case by (simp add: chk_init_def)
next
  case (trace_step st h inp)
  define q where "q = c_fifo st"
  define full where "full = (length q = chk_ratio m)"
  define fout where "fout = (sink_valid inp \<and> full \<and> source_ready inp)"
  define fin where "fin = (sink_valid inp \<and> (\<not> full \<or> fout))"
  have q: "q = drop (length h - chk_ratio m) h" using trace_step.IH by (simp add: q_def)
  have lq: "length q \<le> chk_ratio m" unfolding q by simp
  have c1: "k_sink_ready (chk_comb m st inp) = fin"
    by (simp add: chk_comb_def Let_def fin_def fout_def full_def q_def)
  have c2: "(k_source_valid (chk_comb m st inp) \<and> source_ready inp) = fout"
    by (auto simp: chk_comb_def Let_def fout_def full_def q_def)
  have c3: "k_fifo_reset (chk_comb m st inp) = (c_fsm st = chk_RESET)"
    "k_crc_reset (chk_comb m st inp) = (c_fsm st = chk_RESET)"
    "k_crc_ce (chk_comb m st inp) = (c_fsm st \<noteq> chk_RESET \<and> sink_valid inp \<and> fin)"
    by (simp_all add: chk_comb_def Let_def fin_def fout_def full_def q_def)
  show ?case
  proof (cases "c_fsm st = chk_RESET")
    case True
    then show ?thesis
      by (simp add: chk_history_def c3 fifo_sync_def crc_sync_def)
  next
    case nr: False
    show ?thesis
    proof (cases "sink_valid inp \<and> fin")
      case acc: True
      have hist: "chk_history m st inp h = h @ [sink inp]"
        using nr acc by (simp add: chk_history_def c1 c3)
      have regs: "c_regs (chk_sync m st inp) =
                  crc_sync (chk_crc m) False True (e_data (sink inp)) (c_regs st)"
        using nr acc by (simp add: c3)
      have fifo: "c_fifo (chk_sync m st inp) = (if full then tl q else q) @ [sink inp]"
        using nr acc lq assms(2)
        by (auto simp: c1 c2 c3 fifo_sync_def Let_def q_def [symmetric] fin_def fout_def full_def)
      have "(if full then tl q else q) @ [sink inp] =
            drop (length (h @ [sink inp]) - chk_ratio m) (h @ [sink inp])"
      proof (cases full)
        case True
        then have "length h \<ge> chk_ratio m" using q by (simp add: full_def)
        then have "drop (length (h @ [sink inp]) - chk_ratio m) (h @ [sink inp]) =
                   drop (Suc (length h - chk_ratio m)) h @ [sink inp]"
          using assms(2) by (simp add: Suc_diff_le)
        also have "drop (Suc (length h - chk_ratio m)) h = tl q"
          unfolding q by (simp add: drop_Suc tl_drop)
        finally show ?thesis using True by simp
      next
        case False
        then have "length h < chk_ratio m" using q lq by (auto simp: full_def)
        then show ?thesis using False q by simp
      qed
      with fifo regs trace_step.IH show ?thesis
        by (simp only: hist map_append list.map crc_fold_snoc)
    next
      case nacc: False
      have hist: "chk_history m st inp h = h"
        using nr nacc by (auto simp: chk_history_def c1 c3)
      have nf: "\<not> fout" using nacc by (auto simp: fin_def fout_def)
      have regs: "c_regs (chk_sync m st inp) = c_regs st"
        using nr nacc by (auto simp: c3 crc_sync_def)
      have fifo: "c_fifo (chk_sync m st inp) = q"
        using nr nacc nf by (auto simp: c1 c2 c3 fifo_sync_def Let_def q_def [symmetric] fin_def)
      show ?thesis using trace_step.IH by (simp only: hist regs fifo q_def)
    qed
  qed
qed

lemma chk_final_trace:
  assumes "chk_trace m st h"
  shows "\<exists>h'. chk_trace m (chk_final m st pend envs) h'"
  using assms
proof (induction envs arbitrary: st h pend)
  case Nil
  then show ?case by auto
next
  case (Cons env envs)
  from chk_trace.trace_step [OF Cons.prems, of "drive_in pend env"] Cons.IH
  show ?case by (simp add: Let_def)
qed

lemma chk_step_short:
  assumes "length (c_fifo st) + length pend \<le> chk_ratio m"
  shows "\<not> k_source_valid (chk_comb m st (drive_in pend env))"
    and "\<not> k_error (chk_comb m st (drive_in pend env))"
    and "length (c_fifo (chk_sync m st (drive_in pend env))) +
         length (if sink_valid (drive_in pend env) \<and> k_sink_ready (chk_comb m st (drive_in pend env))
                 then tl pend else pend) \<le> chk_ratio m"
proof -
  show v: "\<not> k_source_valid (chk_comb m st (drive_in pend env))"
    using assms by (cases pend) (auto simp: chk_comb_def Let_def drive_in_def)
  then show "\<not> k_error (chk_comb m st (drive_in pend env))"
    by (auto simp: chk_comb_def Let_def)
  show "length (c_fifo (chk_sync m st (drive_in pend env))) +
         length (if sink_valid (drive_in pend env) \<and> k_sink_ready (chk_comb m st (drive_in pend env))
                 then tl pend else pend) \<le> chk_ratio m"
    using assms v
    by (cases pend) (auto simp: chk_comb_def Let_def drive_in_def fifo_sync_def)
qed

lemma chk_run_short_quiet:
  assumes "length (c_fifo st) + length pend \<le> chk_ratio m"
  shows "list_all (\<lambda>(out, rdy). \<not> k_source_valid out \<and> \<not> k_error out) (chk_run m st pend envs)"
  using assms
proof (induction envs arbitrary: st pend)
  case Nil
  then show ?case by simp
next
  case (Cons env envs)
  note s = chk_step_short [OF Cons.prems, of env]
  show ?case using s(1,2) Cons.IH [OF s(3)] by (simp add: chk_run.simps(2) Let_def)
qed


lemma chk_final_short_reset:
  assumes "c_fsm st = chk_COPY \<or> (c_fsm st = chk_IDLE \<and> xs \<noteq> [])"
    and "length (c_fifo st) + length xs + 1 \<le> chk_ratio m"
    and "\<forall>x\<in>set xs. \<not> e_last x" and "e_last l"
    and "length (filter fst e1) = length xs"
  shows "c_fsm (chk_final m st (xs @ [l]) (e1 @ [(True, r)])) = chk_RESET"
  using assms(1,2,3,5)
proof (induction e1 arbitrary: st xs)
  case Nil
  then have xs: "xs = []" by simp
  with Nil.prems(1) have c: "c_fsm st = chk_COPY" by simp
  define inp where "inp = \<lparr>sink_valid = True, sink = l, source_ready = r\<rparr>"
  have "length (c_fifo st) \<noteq> chk_ratio m" using Nil.prems(2) by simp
  then have "k_sink_ready (chk_comb m st inp)" by (simp add: chk_comb_def Let_def inp_def)
  then have "c_fsm (chk_sync m st inp) = chk_RESET"
    using c assms(4) by (simp add: chk_next_fsm_def inp_def)
  then show ?case by (simp add: xs Let_def inp_def [symmetric])
next
  case (Cons env e1)
  obtain ofr rdy where env: "env = (ofr, rdy)" by (cases env)
  show ?case
  proof (cases ofr)
    case False
    define inp where "inp = drive_in (xs @ [l]) env"
    have v: "\<not> sink_valid inp" by (simp add: inp_def env False drive_in_def split: list.splits)
    have a: "\<not> k_sink_ready (chk_comb m st inp)" "\<not> k_source_valid (chk_comb m st inp)"
      using v by (simp_all add: chk_comb_def Let_def)
    have f: "c_fsm (chk_sync m st inp) = c_fsm st"
      using Cons.prems(1) v a by (auto simp: chk_next_fsm_def)
    have q: "c_fifo (chk_sync m st inp) = c_fifo st"
      using Cons.prems(1) a by (auto simp: fifo_sync_def chk_comb_def Let_def)
    have cnt: "length (filter fst e1) = length xs" using Cons.prems(4) by (simp add: env False)
    have "c_fsm (chk_final m (chk_sync m st inp) (xs @ [l]) (e1 @ [(True, r)])) = chk_RESET"
      using Cons.IH [of "chk_sync m st inp" xs] Cons.prems(1,2,3) cnt by (simp only: f q)
    then show ?thesis using v by (simp add: Let_def inp_def [symmetric])
  next
    case True
    then have "length xs = Suc (length (filter fst e1))" using Cons.prems(4) by (simp add: env)
    then obtain x xs' where xs: "xs = x # xs'" by (cases xs) auto
    define inp where "inp = \<lparr>sink_valid = True, sink = x, source_ready = rdy\<rparr>"
    have di: "drive_in (xs @ [l]) env = inp" by (simp add: xs env True inp_def)
    have nf: "length (c_fifo st) \<noteq> chk_ratio m" using Cons.prems(2) by simp
    have nr: "c_fsm st \<noteq> chk_RESET" using Cons.prems(1) by auto
    have a: "k_sink_ready (chk_comb m st inp)" "\<not> k_source_valid (chk_comb m st inp)"
      using nf by (simp_all add: chk_comb_def Let_def inp_def)
    have nl: "\<not> e_last x" using Cons.prems(3) by (simp add: xs)
    have f: "c_fsm (chk_sync m st inp) = chk_COPY"
      using Cons.prems(1) a nl by (auto simp: chk_next_fsm_def inp_def)
    have q: "c_fifo (chk_sync m st inp) = c_fifo st @ [x]"
      using nr a Cons.prems(2) by (auto simp: fifo_sync_def chk_comb_def Let_def inp_def)
    have cnt: "length (filter fst e1) = length xs'" using Cons.prems(4) by (simp add: env True xs)
    have "c_fsm (chk_final m (chk_sync m st inp) (xs' @ [l]) (e1 @ [(True, r)])) = chk_RESET"
      using Cons.IH [of "chk_sync m st inp" xs'] Cons.prems(2,3) cnt f q by (simp add: xs)
    then show ?thesis using a(1) by (simp add: Let_def di) (simp add: xs inp_def)
  qed
qed

lemma chk_reset_step:
  assumes "c_fsm st = chk_RESET"
  shows "c_fsm (chk_sync m st inp) = chk_IDLE" and "c_fifo (chk_sync m st inp) = []"
    and "c_regs (chk_sync m st inp) = crc_reset_regs (chk_crc m)"
  using assms
  by (simp_all add: chk_next_fsm_def chk_comb_def Let_def fifo_sync_def crc_sync_def)

lemma chk_single_not_reset:
  assumes "c_fsm st = chk_IDLE" and "c_fifo st = []" and "1 \<le> chk_ratio m"
  shows "c_fsm (chk_final m st [l] [(True, r)]) = chk_COPY"
    and "c_fifo (chk_final m st [l] [(True, r)]) = [l]"
proof -
  define inp where "inp = \<lparr>sink_valid = True, sink = l, source_ready = r\<rparr>"
  have a: "k_sink_ready (chk_comb m st inp)" "\<not> k_source_valid (chk_comb m st inp)"
    using assms(2,3) by (auto simp: chk_comb_def Let_def inp_def)
  show "c_fsm (chk_final m st [l] [(True, r)]) = chk_COPY"
    using assms(1) a by (simp add: Let_def inp_def [symmetric] chk_next_fsm_def) (simp add: inp_def)
  show "c_fifo (chk_final m st [l] [(True, r)]) = [l]"
    using assms a by (simp add: Let_def inp_def [symmetric]) (auto simp: inp_def fifo_sync_def chk_comb_def Let_def)
qed


text \<open>
  A packet of at least two and at most \<open>ratio\<close> elements, offered in IDLE with an empty
  staging buffer and with nothing offered after it: the source is valid in no cycle of
  the run and the \<^verbatim>\<open>error\<close> output is set in none; the state machine is in RESET when
  the final element has just been accepted, and the cycle after that leaves it in IDLE
  with the buffer empty. This says nothing of an element that is offered in that RESET
  cycle: the buffer is emptied only at its end, and while it still holds \<open>ratio\<close>
  elements such an element makes the source valid.
\<close>

lemma chk_short_packet_alone:
  assumes "c_fsm st = chk_IDLE" and "c_fifo st = []"
    and "xs \<noteq> []" and "length xs + 1 \<le> chk_ratio m"
    and "\<forall>x\<in>set xs. \<not> e_last x" and "e_last l"
    and "length (filter fst e1) = length xs"
  shows "list_all (\<lambda>(out, rdy). \<not> k_source_valid out \<and> \<not> k_error out)
           (chk_run m st (xs @ [l]) envs) \<and>
         c_fsm (chk_final m st (xs @ [l]) (e1 @ [(True, r)])) = chk_RESET \<and>
         c_fsm (chk_sync m (chk_final m st (xs @ [l]) (e1 @ [(True, r)])) inp) = chk_IDLE \<and>
         c_fifo (chk_sync m (chk_final m st (xs @ [l]) (e1 @ [(True, r)])) inp) = [] \<and>
         c_regs (chk_sync m (chk_final m st (xs @ [l]) (e1 @ [(True, r)])) inp) =
           crc_reset_regs (chk_crc m)"
proof -
  have s: "length (c_fifo st) + length (xs @ [l]) \<le> chk_ratio m"
    using assms(2,4) by simp
  have a: "c_fsm st = chk_COPY \<or> (c_fsm st = chk_IDLE \<and> xs \<noteq> [])" using assms(1,3) by simp
  have b: "length (c_fifo st) + length xs + 1 \<le> chk_ratio m" using assms(2,4) by simp
  note f = chk_final_short_reset [OF a b assms(5,6,7), of r]
  show ?thesis
    by (intro conjI chk_run_short_quiet [OF s] f chk_reset_step [OF f])
qed


text \<open>
  After the four elements 1, 2, 3, 4 of one packet, with \<^verbatim>\<open>last\<close> on the 4, the state
  machine is in RESET and the buffer still holds the four elements; an element that is
  offered in that cycle makes the source valid with the buffered 1.
\<close>

lemma chk_reset_cycle_release:
  "c_fsm (chk_final checker8 (chk_init checker8) (packet [1, 2, 3, 4])
      ((False, True) # replicate 4 (True, True))) = chk_RESET \<and>
   k_source_valid (chk_comb checker8
      (chk_final checker8 (chk_init checker8) (packet [1, 2, 3, 4])
         ((False, True) # replicate 4 (True, True)))
      \<lparr>sink_valid = True, sink = zero_elem\<lparr>e_data := 9\<rparr>, source_ready = True\<rparr>) \<and>
   map_option e_data (k_source_payload (chk_comb checker8
      (chk_final checker8 (chk_init checker8) (packet [1, 2, 3, 4])
         ((False, True) # replicate 4 (True, True)))
      \<lparr>sink_valid = True, sink = zero_elem\<lparr>e_data := 9\<rparr>, source_ready = True\<rparr>)) = Some 1"
  by code_simp

section \<open>The claims about the two pipelines together\<close>

text \<open>
  C1, as the code has it. The modules are those for a data width of 8 bits; the
  downstream of each is always ready, the inserter starts from its reset state, and the
  checker is offered the inserter's output after its RESET cycle. For every byte
  sequence \<open>bs\<close> of at least one byte, the checker releases exactly the bytes of \<open>bs\<close>,
  in order, with \<^verbatim>\<open>last\<close> on the final one only; the final element is released with the
  error field false, and the \<^verbatim>\<open>error\<close> output is set in no cycle. (The error field of the
  elements before the final one is not claimed to be false.)
\<close>

theorem crc_round_trip:
  assumes "bs \<noteq> []"
  shows "LiteEthMACCRC32Inserter 8 = Inr inserter8 \<and> LiteEthMACCRC32Checker 8 = Inr checker8 \<and>
         map (map_option e_data \<circ> k_source_payload)
           (chk_released (chk_run checker8 (chk_init checker8)
              (ins_released (ins_run inserter8 (ins_init inserter8) (packet bs)
                 (replicate (length bs + 5 + i) (True, True))))
              ((False, True) # replicate (length bs + 4 + j) (True, True)))) = map Some bs \<and>
         map k_source_last
           (chk_released (chk_run checker8 (chk_init checker8)
              (ins_released (ins_run inserter8 (ins_init inserter8) (packet bs)
                 (replicate (length bs + 5 + i) (True, True))))
              ((False, True) # replicate (length bs + 4 + j) (True, True)))) =
           replicate (length bs - 1) False @ [True] \<and>
         \<not> k_source_error (last
           (chk_released (chk_run checker8 (chk_init checker8)
              (ins_released (ins_run inserter8 (ins_init inserter8) (packet bs)
                 (replicate (length bs + 5 + i) (True, True))))
              ((False, True) # replicate (length bs + 4 + j) (True, True))))) \<and>
         chk_pulse_count
           (chk_run checker8 (chk_init checker8)
              (ins_released (ins_run inserter8 (ins_init inserter8) (packet bs)
                 (replicate (length bs + 5 + i) (True, True))))
              ((False, True) # replicate (length bs + 4 + j) (True, True))) = 0"
  by (rule round_trip8 [OF assms])

theorem crc_round_trip_witness:
  "[0x10, 0x20, 0x30 :: int] \<noteq> [] \<and>
   map (map_option e_data \<circ> k_source_payload)
     (chk_released (chk_run checker8 (chk_init checker8)
        (ins_released (ins_run inserter8 (ins_init inserter8) (packet [0x10, 0x20, 0x30])
           (replicate (length [0x10, 0x20, 0x30 :: int] + 5 + 0) (True, True))))
        ((False, True) # replicate (length [0x10, 0x20, 0x30 :: int] + 4 + 0) (True, True)))) =
     map Some [0x10, 0x20, 0x30] \<and>
   chk_pulse_count
     (chk_run checker8 (chk_init checker8)
        (ins_released (ins_run inserter8 (ins_init inserter8) (packet [0x10, 0x20, 0x30])
           (replicate (length [0x10, 0x20, 0x30 :: int] + 5 + 0) (True, True))))
        ((False, True) # replicate (length [0x10, 0x20, 0x30 :: int] + 4 + 0) (True, True))) = 0"
proof -
  have ne: "[0x10, 0x20, 0x30 :: int] \<noteq> []" by simp
  from crc_round_trip [OF ne, of 0 0] ne show ?thesis by blast
qed

text \<open>
  For the bytes 1, 2 the first element that the checker releases, the byte 1, carries
  the error field true: the CRC unit compares its next value with the residue in every
  cycle, and they agree only at the end of the packet.
\<close>

theorem crc_round_trip_error_counterexample:
  "map k_source_error
     (chk_released (chk_run checker8 (chk_init checker8)
        (ins_released (ins_run inserter8 (ins_init inserter8) (packet [1, 2])
           (replicate 7 (True, True))))
        ((False, True) # replicate 6 (True, True)))) = [True, False]"
  by code_simp

section \<open>The claims about the engine and the CRC32 unit\<close>

text \<open>
  C2. For a data width \<open>W\<close> and a register width \<open>N\<close> of at least one bit each (a
  signal of no bit is refused), the constructor of the engine succeeds, and the
  \<^verbatim>\<open>next\<close> that its logic computes from a state \<open>s\<close> and a data word \<open>d\<close> is the
  state of the bit-serial register after the \<open>W\<close> bits of \<open>d\<close>, low bit first, started
  from the \<open>N\<close> bits of \<open>s\<close>.
\<close>

theorem engine_refines_serial_lfsr:
  assumes "0 < N" and "0 < W"
  shows "\<exists>es. LiteEthMACCRCEngine W N P = Inr es \<and>
           (\<forall>s d. engine_next es s d =
                    lfsr_serial N P (take_bit N s) (map (bit d) [0..<W]))"
  using engine_correct [OF assms, of P] by blast

theorem engine_refines_serial_lfsr_witness:
  "0 < (32::nat) \<and> 0 < (8::nat) \<and>
   (\<exists>es. LiteEthMACCRCEngine 8 32 0x04C11DB7 = Inr es \<and>
      (\<forall>s d. engine_next es s d =
               lfsr_serial 32 0x04C11DB7 (take_bit 32 s) (map (bit d) [0..<8])))"
  using engine_refines_serial_lfsr [of 32 8 "0x04C11DB7"] by simp

text \<open>
  C4. In the unit that the constructor returns, a \<^verbatim>\<open>last_be\<close> with the single bit \<open>k\<close>
  set selects lane \<open>k\<close>, and a \<^verbatim>\<open>last_be\<close> of 0 selects the top lane \<open>dw - 1\<close>. At the
  selected lane, \<^verbatim>\<open>value\<close> has 32 bits, and its bit \<open>i\<close> is the complement of bit
  \<open>31 - i\<close> of that lane's register: the register bit-reversed, then complemented.
  \<^verbatim>\<open>error\<close> says that the \<^verbatim>\<open>next\<close> of that lane's engine, neither reversed nor
  complemented, differs from 0xC704DD7B; that \<^verbatim>\<open>next\<close> is the serial register after the
  low \<open>(k+1)*8\<close> data bits, started from the register of the top lane.
\<close>

theorem crc32_value_error_lane:
  assumes "LiteEthMACCRC32 data_width = Inr u" and "k < lanes u"
  shows "bit (crc_value u regs (2 ^ k)) i = (i < 32 \<and> \<not> bit (regs ! k) (31 - i)) \<and>
         crc_error u regs dat (2 ^ k) = (crc_engine_next u regs dat k \<noteq> 0xC704DD7B) \<and>
         bit (crc_value u regs 0) i = (i < 32 \<and> \<not> bit (regs ! (lanes u - 1)) (31 - i)) \<and>
         crc_error u regs dat 0 = (crc_engine_next u regs dat (lanes u - 1) \<noteq> 0xC704DD7B) \<and>
         crc_engine_next u regs dat k =
           lfsr_serial 32 0x04C11DB7 (take_bit 32 (last regs)) (map (bit dat) [0..<(k + 1) * 8])"
proof -
  have b: "bit ((2::int) ^ k) k" by (simp add: bit_exp_iff)
  have c: "\<forall>j. k < j \<and> j < lanes u \<longrightarrow> \<not> bit ((2::int) ^ k) j" by (simp add: bit_exp_iff)
  have pos: "0 < lanes u" using assms(2) by simp
  note sel = crc_select [OF assms(2) b c] crc_select_zero [OF pos]
  have v1: "bit (crc_value u regs (2 ^ k)) i = (i < 32 \<and> \<not> bit (regs ! k) (31 - i))"
    unfolding sel(1) crc_width_def by (rule bit_complement_reverse)
  have v0: "bit (crc_value u regs 0) i = (i < 32 \<and> \<not> bit (regs ! (lanes u - 1)) (31 - i))"
    unfolding sel(3) crc_width_def by (rule bit_complement_reverse)
  have e1: "crc_error u regs dat (2 ^ k) = (crc_engine_next u regs dat k \<noteq> 0xC704DD7B)"
    unfolding sel(2) by (simp add: crc_check_def)
  have e0: "crc_error u regs dat 0 = (crc_engine_next u regs dat (lanes u - 1) \<noteq> 0xC704DD7B)"
    unfolding sel(4) by (simp add: crc_check_def)
  have n: "crc_engine_next u regs dat k =
           lfsr_serial 32 0x04C11DB7 (take_bit 32 (last regs)) (map (bit dat) [0..<(k + 1) * 8])"
    using crc_engine_next_serial [OF assms, of regs dat]
    by (simp only: crc_width_def crc_polynom_def)
  show ?thesis by (intro conjI v1 e1 v0 e0 n)
qed

theorem crc32_value_error_lane_witness:
  "\<exists>u. LiteEthMACCRC32 32 = Inr u \<and> 2 < lanes u \<and>
        bit (crc_value u [1, 2, 3, 4] (2 ^ 2)) 30 = (30 < (32::nat) \<and> \<not> bit ([1, 2, 3, 4 :: int] ! 2) (31 - 30)) \<and>
        crc_error u [1, 2, 3, 4] 5 (2 ^ 2) = (crc_engine_next u [1, 2, 3, 4] 5 2 \<noteq> 0xC704DD7B) \<and>
        bit (crc_value u [1, 2, 3, 4] 0) 29 = (29 < (32::nat) \<and> \<not> bit ([1, 2, 3, 4 :: int] ! (lanes u - 1)) (31 - 29)) \<and>
        crc_error u [1, 2, 3, 4] 5 0 = (crc_engine_next u [1, 2, 3, 4] 5 (lanes u - 1) \<noteq> 0xC704DD7B)"
proof -
  obtain u where u: "LiteEthMACCRC32 32 = Inr u" using crc32_total [of 32] by auto
  have l: "2 < lanes u" using crc32_engines(1) [OF u] by simp
  show ?thesis
    using crc32_value_error_lane [OF u l, of "[1, 2, 3, 4]" 30 5]
      crc32_value_error_lane [OF u l, of "[1, 2, 3, 4]" 29 5] u l by blast
qed

text \<open>
  C5. In the unit that the constructor returns, engine \<open>k\<close> is the engine of data width
  \<open>(k+1)*8\<close>. An enabled update without reset sets the register of every lane \<open>k\<close> to
  the \<^verbatim>\<open>next\<close> of engine \<open>k\<close> at the previous register of the top lane and the low
  \<open>(k+1)*8\<close> bits of the data, which is the serial register after these bits; all lanes
  start from that same previous register. A reset sets every lane to 0xFFFFFFFF.
\<close>

theorem crc32_update_reset:
  assumes "LiteEthMACCRC32 data_width = Inr u" and "length regs = lanes u" and "k < lanes u"
  shows "LiteEthMACCRCEngine ((k + 1) * 8) 32 0x04C11DB7 = Inr (engines u ! k) \<and>
         length (crc_sync u False True d regs) = lanes u \<and>
         crc_sync u False True d regs ! k =
           engine_next (engines u ! k) (regs ! (lanes u - 1)) (take_bit ((k + 1) * 8) d) \<and>
         crc_sync u False True d regs ! k =
           lfsr_serial 32 0x04C11DB7 (take_bit 32 (regs ! (lanes u - 1)))
             (map (bit d) [0..<(k + 1) * 8]) \<and>
         crc_sync u True ce d regs = replicate (lanes u) 0xFFFFFFFF"
proof -
  have "regs \<noteq> []" using assms(2,3) by auto
  then have la: "last regs = regs ! (lanes u - 1)" using assms(2) by (simp add: last_conv_nth)
  have e: "LiteEthMACCRCEngine ((k + 1) * 8) 32 0x04C11DB7 = Inr (engines u ! k)"
    using crc32_engines(4) [OF assms(1,3)] by (simp add: crc_width_def crc_polynom_def)
  have n: "crc_sync u False True d regs ! k = crc_engine_next u regs d k"
    using assms(3) by (simp add: crc_sync_def)
  have s: "crc_engine_next u regs d k =
           lfsr_serial 32 0x04C11DB7 (take_bit 32 (regs ! (lanes u - 1)))
             (map (bit d) [0..<(k + 1) * 8])"
    using crc_engine_next_serial [OF assms(1,3), of regs d]
    by (simp only: la crc_width_def crc_polynom_def)
  have r: "crc_sync u True ce d regs = replicate (lanes u) 0xFFFFFFFF"
    by (simp add: crc_sync_def crc_reset_regs_def crc_init_def crc_width_def)
  have l: "length (crc_sync u False True d regs) = lanes u" by (simp add: crc_sync_def)
  have x: "crc_sync u False True d regs ! k =
           engine_next (engines u ! k) (regs ! (lanes u - 1)) (take_bit ((k + 1) * 8) d)"
    by (simp only: n crc_engine_next_def la)
  show ?thesis using e l x r n s by (simp only: simp_thms)
qed

theorem crc32_update_reset_witness:
  "\<exists>u. LiteEthMACCRC32 16 = Inr u \<and> length [7, 9 :: int] = lanes u \<and> 0 < lanes u \<and>
        LiteEthMACCRCEngine ((0 + 1) * 8) 32 0x04C11DB7 = Inr (engines u ! 0) \<and>
        crc_sync u False True 0x1234 [7, 9] ! 0 =
          lfsr_serial 32 0x04C11DB7 (take_bit 32 ([7, 9] ! (lanes u - 1)))
            (map (bit (0x1234 :: int)) [0..<(0 + 1) * 8]) \<and>
        crc_sync u True False 0x1234 [7, 9] = replicate (lanes u) 0xFFFFFFFF"
proof -
  obtain u where u: "LiteEthMACCRC32 16 = Inr u" using crc32_total [of 16] by auto
  have l: "length [7, 9 :: int] = lanes u" using crc32_engines(1) [OF u] by simp
  have k: "0 < lanes u" using crc32_engines(2) [OF u] .
  show ?thesis
    using crc32_update_reset [OF u l k, of "0x1234" False] u l k by blast
qed

text \<open>
  C3, as the code has it. With a data width of 8 bits, the inserter forwards the bytes
  1, 2, 3, 4 and appends the CRC value 0xB63CFBCD as the four bytes 0xCD, 0xFB, 0x3C,
  0xB6, the least significant byte first, with \<^verbatim>\<open>last\<close> on the final one only. The
  checker, fed these eight bytes after its RESET cycle, releases 1, 2, 3, 4 with
  \<^verbatim>\<open>last\<close> on the 4 only; the error field is true on 1, 2, 3 and false on the final 4,
  and the \<^verbatim>\<open>error\<close> output is set in no cycle.
\<close>

theorem crc_scenario_1234:
  "crc32_bytes [1, 2, 3, 4] = 0xB63CFBCD \<and>
   ins_released (ins_run inserter8 (ins_init inserter8) (packet [1, 2, 3, 4])
      (replicate 9 (True, True))) =
     [zero_elem\<lparr>e_data := 1\<rparr>, zero_elem\<lparr>e_data := 2\<rparr>, zero_elem\<lparr>e_data := 3\<rparr>,
      zero_elem\<lparr>e_data := 4\<rparr>, zero_elem\<lparr>e_data := 0xCD\<rparr>, zero_elem\<lparr>e_data := 0xFB\<rparr>,
      zero_elem\<lparr>e_data := 0x3C\<rparr>, zero_elem\<lparr>e_data := 0xB6, e_last := True\<rparr>] \<and>
   map (\<lambda>x. (map_option e_data (k_source_payload x), k_source_last x, k_source_error x))
     (chk_released (chk_run checker8 (chk_init checker8)
        (ins_released (ins_run inserter8 (ins_init inserter8) (packet [1, 2, 3, 4])
           (replicate 9 (True, True))))
        ((False, True) # replicate 8 (True, True)))) =
     [(Some 1, False, True), (Some 2, False, True), (Some 3, False, True),
      (Some 4, True, False)] \<and>
   chk_pulse_count (chk_run checker8 (chk_init checker8)
        (ins_released (ins_run inserter8 (ins_init inserter8) (packet [1, 2, 3, 4])
           (replicate 9 (True, True))))
        ((False, True) # replicate 8 (True, True))) = 0"
proof -
  have v: "crc32_bytes [1, 2, 3, 4] = 0xB63CFBCD" by code_simp
  have s: "ins_released (ins_run inserter8 (ins_init inserter8) (packet [1, 2, 3, 4])
      (replicate 9 (True, True))) =
     [zero_elem\<lparr>e_data := 1\<rparr>, zero_elem\<lparr>e_data := 2\<rparr>, zero_elem\<lparr>e_data := 3\<rparr>,
      zero_elem\<lparr>e_data := 4\<rparr>, zero_elem\<lparr>e_data := 0xCD\<rparr>, zero_elem\<lparr>e_data := 0xFB\<rparr>,
      zero_elem\<lparr>e_data := 0x3C\<rparr>, zero_elem\<lparr>e_data := 0xB6, e_last := True\<rparr>]"
    using inserter8_stream [of "[1, 2, 3, 4]" 0] by (simp add: v crc_chunks8)
  have c: "map (\<lambda>x. (map_option e_data (k_source_payload x), k_source_last x, k_source_error x))
     (chk_released (chk_run checker8 (chk_init checker8)
        [zero_elem\<lparr>e_data := 1\<rparr>, zero_elem\<lparr>e_data := 2\<rparr>, zero_elem\<lparr>e_data := 3\<rparr>,
         zero_elem\<lparr>e_data := 4\<rparr>, zero_elem\<lparr>e_data := 0xCD\<rparr>, zero_elem\<lparr>e_data := 0xFB\<rparr>,
         zero_elem\<lparr>e_data := 0x3C\<rparr>, zero_elem\<lparr>e_data := 0xB6, e_last := True\<rparr>]
        ((False, True) # replicate 8 (True, True)))) =
     [(Some 1, False, True), (Some 2, False, True), (Some 3, False, True),
      (Some 4, True, False)]"
    by code_simp
  have p: "chk_pulse_count (chk_run checker8 (chk_init checker8)
        [zero_elem\<lparr>e_data := 1\<rparr>, zero_elem\<lparr>e_data := 2\<rparr>, zero_elem\<lparr>e_data := 3\<rparr>,
         zero_elem\<lparr>e_data := 4\<rparr>, zero_elem\<lparr>e_data := 0xCD\<rparr>, zero_elem\<lparr>e_data := 0xFB\<rparr>,
         zero_elem\<lparr>e_data := 0x3C\<rparr>, zero_elem\<lparr>e_data := 0xB6, e_last := True\<rparr>]
        ((False, True) # replicate 8 (True, True))) = 0"
    using round_trip8 [of "[1, 2, 3, 4]" 0 0] by (simp add: s)
  show ?thesis unfolding s by (intro conjI v refl c p)
qed

text \<open>
  The bytes that the inserter appends to 1, 2, 3, 4 are not 0xB6, 0x3C, 0xFB, 0xCD in
  that order.
\<close>

theorem crc_scenario_1234_order_counterexample:
  "map e_data (ins_released (ins_run inserter8 (ins_init inserter8) (packet [1, 2, 3, 4])
      (replicate 9 (True, True)))) \<noteq> [1, 2, 3, 4, 0xB6, 0x3C, 0xFB, 0xCD]"
proof -
  have v: "crc32_bytes [1, 2, 3, 4] = 0xB63CFBCD" by code_simp
  show ?thesis
    using inserter8_stream [of "[1, 2, 3, 4]" 0] by (simp add: v crc_chunks8)
qed

section \<open>The claims about the inserter\<close>

text \<open>
  C6. In the COPY state the source carries the sink's element in the same cycle, with
  the same data and with \<^verbatim>\<open>last\<close> forced to false; the sink is ready when the source is,
  so that an element is accepted exactly when it is forwarded. The CRC unit is enabled
  exactly when the sink is valid and the source is ready, and then takes the element's
  data. The state machine moves to the CRC state exactly when an element with \<^verbatim>\<open>last\<close>
  is accepted, and stays in COPY otherwise.
\<close>

theorem inserter_copy_state:
  assumes "i_fsm st = ins_COPY"
  shows "o_source_valid (ins_comb m st inp) = sink_valid inp \<and>
         o_sink_ready (ins_comb m st inp) = source_ready inp \<and>
         o_source (ins_comb m st inp) = (sink inp)\<lparr>e_last := False\<rparr> \<and>
         e_data (o_source (ins_comb m st inp)) = e_data (sink inp) \<and>
         \<not> e_last (o_source (ins_comb m st inp)) \<and>
         o_crc_ce (ins_comb m st inp) = (sink_valid inp \<and> source_ready inp) \<and>
         \<not> o_crc_reset (ins_comb m st inp) \<and>
         i_regs (ins_sync m st inp) =
           (if sink_valid inp \<and> source_ready inp
            then map (crc_engine_next (ins_crc m) (i_regs st) (e_data (sink inp)))
                   [0..<lanes (ins_crc m)]
            else i_regs st) \<and>
         (i_fsm (ins_sync m st inp) = ins_CRC) =
           (sink_valid inp \<and> source_ready inp \<and> e_last (sink inp)) \<and>
         (i_fsm (ins_sync m st inp) = ins_COPY) =
           (\<not> (sink_valid inp \<and> source_ready inp \<and> e_last (sink inp)))"
  using assms by (auto simp: ins_comb_def ins_next_fsm_def crc_sync_def)

theorem inserter_copy_state_witness:
  "i_fsm \<lparr>i_fsm = ins_COPY, i_regs = [0xFFFFFFFF], i_cnt = 3\<rparr> = ins_COPY \<and>
   o_source_valid (ins_comb inserter8 \<lparr>i_fsm = ins_COPY, i_regs = [0xFFFFFFFF], i_cnt = 3\<rparr>
      \<lparr>sink_valid = True, sink = zero_elem\<lparr>e_data := 4, e_last := True\<rparr>, source_ready = True\<rparr>) \<and>
   e_data (o_source (ins_comb inserter8 \<lparr>i_fsm = ins_COPY, i_regs = [0xFFFFFFFF], i_cnt = 3\<rparr>
      \<lparr>sink_valid = True, sink = zero_elem\<lparr>e_data := 4, e_last := True\<rparr>, source_ready = True\<rparr>)) = 4 \<and>
   \<not> e_last (o_source (ins_comb inserter8 \<lparr>i_fsm = ins_COPY, i_regs = [0xFFFFFFFF], i_cnt = 3\<rparr>
      \<lparr>sink_valid = True, sink = zero_elem\<lparr>e_data := 4, e_last := True\<rparr>, source_ready = True\<rparr>)) \<and>
   o_crc_ce (ins_comb inserter8 \<lparr>i_fsm = ins_COPY, i_regs = [0xFFFFFFFF], i_cnt = 3\<rparr>
      \<lparr>sink_valid = True, sink = zero_elem\<lparr>e_data := 4, e_last := True\<rparr>, source_ready = True\<rparr>) \<and>
   i_fsm (ins_sync inserter8 \<lparr>i_fsm = ins_COPY, i_regs = [0xFFFFFFFF], i_cnt = 3\<rparr>
      \<lparr>sink_valid = True, sink = zero_elem\<lparr>e_data := 4, e_last := True\<rparr>, source_ready = True\<rparr>) = ins_CRC"
  using inserter_copy_state [of "\<lparr>i_fsm = ins_COPY, i_regs = [0xFFFFFFFF], i_cnt = 3\<rparr>" inserter8
      "\<lparr>sink_valid = True, sink = zero_elem\<lparr>e_data := 4, e_last := True\<rparr>, source_ready = True\<rparr>"]
  by (simp add: zero_elem_def)

text \<open>
  C7, as the code has it. For a data width of 8, 16 or 32 bits the CRC value is cut
  into \<open>32 div dw\<close> chunks of \<open>dw\<close> bits, which is 32/dw rounded up; for 32 bits this is
  one element. In the CRC state the source is valid with the chunk of index
  \<open>ratio - 1 - cnt\<close>, counted from the least significant chunk, and the sink is not
  ready; the chunk stays while the source is not ready and the next one follows on
  acceptance; \<^verbatim>\<open>last\<close> is set on the final chunk only, and the state machine returns to
  IDLE when that chunk is accepted. So, started with the counter at its reset value and
  whatever the pattern \<open>rs\<close> of the downstream's ready, the elements that the downstream
  takes are the first chunks, least significant first, one per ready cycle.
\<close>

theorem inserter_crc_append:
  assumes "LiteEthMACCRC32Inserter dw = Inr m" and "dw = 8 \<or> dw = 16 \<or> dw = 32"
    and "i_fsm st = ins_CRC" and "i_cnt st = ins_ratio m - 1"
    and "i_fsm sc = ins_CRC" and "i_cnt sc < ins_ratio m"
  shows "ins_released (ins_run m st pend (map (\<lambda>r. (False, r)) rs)) =
           take (length (filter id rs)) (crc_chunks m (crc_value (ins_crc m) (i_regs st) 0)) \<and>
         length (crc_chunks m (crc_value (ins_crc m) (i_regs st) 0)) = (32 + dw - 1) div dw \<and>
         (dw = 32 \<longrightarrow> crc_chunks m (crc_value (ins_crc m) (i_regs st) 0) =
            [zero_elem\<lparr>e_data := crc_value (ins_crc m) (i_regs st) 0, e_last := True\<rparr>]) \<and>
         o_source_valid (ins_comb m sc inp) \<and> \<not> o_sink_ready (ins_comb m sc inp) \<and>
         o_source (ins_comb m sc inp) =
           crc_chunks m (crc_value (ins_crc m) (i_regs sc) 0) ! (ins_ratio m - 1 - i_cnt sc) \<and>
         e_last (o_source (ins_comb m sc inp)) = (i_cnt sc = 0) \<and>
         i_regs (ins_sync m sc inp) = i_regs sc \<and>
         i_fsm (ins_sync m sc inp) =
           (if source_ready inp \<and> i_cnt sc = 0 then ins_IDLE else ins_CRC) \<and>
         (i_fsm (ins_sync m sc inp) = ins_CRC \<longrightarrow>
            i_cnt (ins_sync m sc inp) = (if source_ready inp then i_cnt sc - 1 else i_cnt sc))"
proof -
  note r = inserter_ratio_cases [OF assms(1,2)]
  note f = inserter_fields [OF assms(1)]
  have c: "i_cnt st < ins_ratio m" using r assms(4) by auto
  have a: "ins_released (ins_run m st pend (map (\<lambda>r. (False, r)) rs)) =
           take (length (filter id rs)) (crc_chunks m (crc_value (ins_crc m) (i_regs st) 0))"
    using ins_run_crc_phase [OF assms(1,2,3) c, of pend rs] assms(4) by simp
  have b: "length (crc_chunks m (crc_value (ins_crc m) (i_regs st) 0)) = (32 + dw - 1) div dw"
    using r f(1) by auto
  have v: "take_bit 32 (crc_value (ins_crc m) (i_regs st) 0) = crc_value (ins_crc m) (i_regs st) 0"
    using crc_select_zero(1) [OF crc32_engines(2) [OF f(3)], of "i_regs st"]
    by (simp add: crc_width_def)
  have d: "dw = 32 \<longrightarrow> crc_chunks m (crc_value (ins_crc m) (i_regs st) 0) =
            [zero_elem\<lparr>e_data := crc_value (ins_crc m) (i_regs st) 0, e_last := True\<rparr>]"
    using r f(1) v by (auto simp: crc_chunks_def)
  note cyc = ins_crc_cycle [OF assms(1,2,5,6), of inp]
  have l: "e_last (o_source (ins_comb m sc inp)) = (i_cnt sc = 0)"
    using assms(6) unfolding cyc(3) by (auto simp: crc_chunks_def)
  show ?thesis
    by (intro conjI a b d cyc(1) cyc(2) cyc(3) l cyc(4) cyc(5) impI cyc(6))
qed

theorem inserter_crc_append_witness:
  "LiteEthMACCRC32Inserter 8 = Inr inserter8 \<and> ((8::nat) = 8 \<or> (8::nat) = 16 \<or> (8::nat) = 32) \<and>
   i_fsm \<lparr>i_fsm = ins_CRC, i_regs = [0x4C20C392], i_cnt = 3\<rparr> = ins_CRC \<and>
   i_cnt \<lparr>i_fsm = ins_CRC, i_regs = [0x4C20C392], i_cnt = 3\<rparr> = ins_ratio inserter8 - 1 \<and>
   i_cnt \<lparr>i_fsm = ins_CRC, i_regs = [0x4C20C392], i_cnt = 3\<rparr> < ins_ratio inserter8 \<and>
   ins_released (ins_run inserter8 \<lparr>i_fsm = ins_CRC, i_regs = [0x4C20C392], i_cnt = 3\<rparr> []
      (map (\<lambda>r. (False, r)) [True, False, True, True, False, True, True])) =
     take (length (filter id [True, False, True, True, False, True, True]))
       (crc_chunks inserter8
          (crc_value (ins_crc inserter8) (i_regs \<lparr>i_fsm = ins_CRC, i_regs = [0x4C20C392], i_cnt = 3\<rparr>) 0))"
proof -
  define st where "st = \<lparr>i_fsm = ins_CRC, i_regs = [0x4C20C392], i_cnt = 3\<rparr>"
  have d: "(8::nat) = 8 \<or> (8::nat) = 16 \<or> (8::nat) = 32" by simp
  have s1: "i_fsm st = ins_CRC" by (simp add: st_def)
  have s2: "i_cnt st = ins_ratio inserter8 - 1" by (simp add: st_def)
  have s3: "i_cnt st < ins_ratio inserter8" by (simp add: st_def)
  note th = inserter_crc_append [OF inserter8 d s1 s2 s1 s3,
      of "[]" "[True, False, True, True, False, True, True]", THEN conjunct1]
  show ?thesis unfolding st_def [symmetric] by (intro conjI inserter8 d s1 s2 s3 th)
qed

text \<open>
  The CRC value of the bytes 1, 2, 3, 4 is 0xB63CFBCD, from the register 0x4C20C392.
  The first element that the inserter appends, with the counter at its reset value 3,
  is 0xCD, the least significant byte of the value, and not its most significant byte.
\<close>

theorem inserter_crc_msb_first_counterexample:
  "crc_value (ins_crc inserter8) [0x4C20C392] 0 = 0xB63CFBCD \<and>
   e_data (o_source (ins_comb inserter8 \<lparr>i_fsm = ins_CRC, i_regs = [0x4C20C392], i_cnt = 3\<rparr>
      \<lparr>sink_valid = False, sink = zero_elem, source_ready = True\<rparr>)) = 0xCD \<and>
   e_data (o_source (ins_comb inserter8 \<lparr>i_fsm = ins_CRC, i_regs = [0x4C20C392], i_cnt = 3\<rparr>
      \<lparr>sink_valid = False, sink = zero_elem, source_ready = True\<rparr>)) \<noteq>
     take_bit 8 (drop_bit 24 (crc_value (ins_crc inserter8) [0x4C20C392] 0))"
  by code_simp

section \<open>The claims about the checker\<close>

text \<open>
  C8. Let \<open>st\<close> be a state that the checker reaches from its reset state under any
  inputs, and \<open>h\<close> the elements that it has accepted since its buffer and CRC unit were
  last reset; the data width is at most 32 bits, so that \<open>ratio\<close> is at least 1. The
  staging buffer holds the last \<open>ratio\<close> elements of \<open>h\<close>, or all of \<open>h\<close> when these are
  fewer: never more than \<open>ratio\<close>, which is within its capacity \<open>ratio + 1\<close>. The CRC
  registers have taken in all of \<open>h\<close>. The source is valid only when the buffer holds
  \<open>ratio\<close> elements and the sink offers one more; the element at the source is then the
  one accepted \<open>ratio\<close> elements before the end of \<open>h\<close>, the \<open>ratio - 1\<close> that follow it
  are in the CRC registers, and the next one is at the CRC unit's data input, so that
  the error field of the released element is computed from all \<open>ratio\<close> elements after
  it; if the downstream takes the element, the sink's element is accepted in the same
  cycle.
\<close>

theorem checker_staging_buffer:
  assumes "LiteEthMACCRC32Checker dw = Inr m" and "dw \<le> 32" and "chk_trace m st h"
  shows "length (c_fifo st) \<le> chk_ratio m \<and> length (c_fifo st) \<le> chk_ratio m + 1 \<and>
         c_fifo st = drop (length h - chk_ratio m) h \<and>
         c_regs st = crc_fold (chk_crc m) (crc_reset_regs (chk_crc m)) (map e_data h) \<and>
         (k_source_valid (chk_comb m st inp) \<longrightarrow>
            sink_valid inp \<and> length (c_fifo st) = chk_ratio m \<and> chk_ratio m \<le> length h \<and>
            k_source_payload (chk_comb m st inp) = Some (h ! (length h - chk_ratio m)) \<and>
            (source_ready inp \<longrightarrow> k_sink_ready (chk_comb m st inp)) \<and>
            k_source_error (chk_comb m st inp) =
              (e_error (sink inp) \<or>
               crc_error (chk_crc m)
                 (crc_fold (chk_crc m) (crc_reset_regs (chk_crc m)) (map e_data h))
                 (e_data (sink inp)) 0))"
proof -
  have u: "LiteEthMACCRC32 dw = Inr (chk_crc m)" by (rule checker_fields(3) [OF assms(1)])
  have "0 < dw div 8" using crc32_engines(1,2) [OF u] by simp
  then have "0 < dw" by (cases "dw = 0") simp_all
  then have "1 \<le> 32 div dw" using assms(2) by (simp add: Suc_le_eq div_greater_zero_iff)
  then have r: "1 \<le> chk_ratio m" using checker_fields(2) [OF assms(1)] by simp
  note inv = chk_trace_invariant [OF assms(3) r]
  have q: "c_fifo st = drop (length h - chk_ratio m) h" using inv by simp
  have g: "c_regs st = crc_fold (chk_crc m) (crc_reset_regs (chk_crc m)) (map e_data h)"
    using inv by simp
  have l: "length (c_fifo st) \<le> chk_ratio m" unfolding q by simp
  have v: "sink_valid inp \<and> length (c_fifo st) = chk_ratio m \<and> chk_ratio m \<le> length h \<and>
            k_source_payload (chk_comb m st inp) = Some (h ! (length h - chk_ratio m)) \<and>
            (source_ready inp \<longrightarrow> k_sink_ready (chk_comb m st inp)) \<and>
            k_source_error (chk_comb m st inp) =
              (e_error (sink inp) \<or>
               crc_error (chk_crc m)
                 (crc_fold (chk_crc m) (crc_reset_regs (chk_crc m)) (map e_data h))
                 (e_data (sink inp)) 0)"
    if sv: "k_source_valid (chk_comb m st inp)"
  proof -
    from sv have a: "sink_valid inp" "length (c_fifo st) = chk_ratio m"
      by (simp_all add: chk_comb_def Let_def)
    have b: "chk_ratio m \<le> length h" using a(2) r unfolding q by simp
    then have "length h - chk_ratio m < length h" using r by simp
    then have "c_fifo st = h ! (length h - chk_ratio m) # drop (Suc (length h - chk_ratio m)) h"
      unfolding q by (simp add: Cons_nth_drop_Suc)
    then have c: "k_source_payload (chk_comb m st inp) = Some (h ! (length h - chk_ratio m))"
      by (simp add: chk_comb_def Let_def)
    have d: "source_ready inp \<longrightarrow> k_sink_ready (chk_comb m st inp)"
      using a by (simp add: chk_comb_def Let_def)
    have e: "k_source_error (chk_comb m st inp) =
              (e_error (sink inp) \<or>
               crc_error (chk_crc m)
                 (crc_fold (chk_crc m) (crc_reset_regs (chk_crc m)) (map e_data h))
                 (e_data (sink inp)) 0)"
      unfolding g [symmetric] by (simp add: chk_comb_def Let_def)
    show ?thesis by (intro conjI a b c d e)
  qed
  show ?thesis using l q g v by (intro conjI impI) simp_all
qed

theorem checker_staging_buffer_witness:
  "\<exists>h. LiteEthMACCRC32Checker 8 = Inr checker8 \<and> (8::nat) \<le> 32 \<and>
     chk_trace checker8
       (chk_final checker8 (chk_init checker8) (packet [1, 2, 3, 4, 5])
          ((False, True) # replicate 4 (True, True))) h \<and>
     k_source_valid (chk_comb checker8
       (chk_final checker8 (chk_init checker8) (packet [1, 2, 3, 4, 5])
          ((False, True) # replicate 4 (True, True)))
       \<lparr>sink_valid = True, sink = zero_elem\<lparr>e_data := 5, e_last := True\<rparr>, source_ready = True\<rparr>) \<and>
     k_source_payload (chk_comb checker8
       (chk_final checker8 (chk_init checker8) (packet [1, 2, 3, 4, 5])
          ((False, True) # replicate 4 (True, True)))
       \<lparr>sink_valid = True, sink = zero_elem\<lparr>e_data := 5, e_last := True\<rparr>, source_ready = True\<rparr>) =
       Some (h ! (length h - chk_ratio checker8)) \<and>
     k_sink_ready (chk_comb checker8
       (chk_final checker8 (chk_init checker8) (packet [1, 2, 3, 4, 5])
          ((False, True) # replicate 4 (True, True)))
       \<lparr>sink_valid = True, sink = zero_elem\<lparr>e_data := 5, e_last := True\<rparr>, source_ready = True\<rparr>)"
proof -
  define S where "S = chk_final checker8 (chk_init checker8) (packet [1, 2, 3, 4, 5])
          ((False, True) # replicate 4 (True, True))"
  define inp where "inp = \<lparr>sink_valid = True, sink = zero_elem\<lparr>e_data := 5, e_last := True\<rparr>,
          source_ready = True\<rparr>"
  obtain h where h: "chk_trace checker8 S h"
    unfolding S_def using chk_final_trace [OF chk_trace.trace_init] by blast
  have sv: "k_source_valid (chk_comb checker8 S inp)" unfolding S_def inp_def by code_simp
  have le: "(8::nat) \<le> 32" by simp
  have rdy: "source_ready inp" by (simp add: inp_def)
  from checker_staging_buffer [OF checker8 le h, of inp] sv rdy
  have "k_source_payload (chk_comb checker8 S inp) = Some (h ! (length h - chk_ratio checker8))"
    and "k_sink_ready (chk_comb checker8 S inp)"
    by blast+
  with h sv checker8 le show ?thesis unfolding S_def inp_def by blast
qed

text \<open>
  C9, as the code has it. In every cycle the error field at the source is the
  disjunction of the error field of the element at the sink and of the CRC unit's
  residue mismatch, and the \<^verbatim>\<open>error\<close> output is set exactly when the source is valid
  with \<^verbatim>\<open>last\<close> and the residue does not match. For a data width of 8 bits, a packet
  of at least five elements offered after the RESET cycle and a downstream that is
  always ready, the \<^verbatim>\<open>error\<close> output is set in exactly one cycle if the register after
  the whole packet is not the residue, and in none if it is; the final element is
  released with the error field saying the same, or the error of the packet's last
  element.
\<close>

theorem checker_error_outputs:
  assumes "\<forall>x\<in>set xs. \<not> e_last x" and "e_last l" and "4 \<le> length xs"
  shows "k_source_error (chk_comb m st inp) =
           (e_error (sink inp) \<or> crc_error (chk_crc m) (c_regs st) (e_data (sink inp)) 0) \<and>
         k_error (chk_comb m st inp) =
           (k_source_valid (chk_comb m st inp) \<and> k_source_last (chk_comb m st inp) \<and>
            crc_error (chk_crc m) (c_regs st) (e_data (sink inp)) 0) \<and>
         chk_pulse_count (chk_run checker8 (chk_init checker8) (xs @ [l])
            ((False, True) # replicate (length xs + 1 + k) (True, True))) =
           (if crc_bytes crc_init (map e_data (xs @ [l])) \<noteq> crc_check then 1 else 0) \<and>
         map k_source_last (chk_released (chk_run checker8 (chk_init checker8) (xs @ [l])
            ((False, True) # replicate (length xs + 1 + k) (True, True)))) =
           replicate (length xs - 4) False @ [True] \<and>
         k_source_error (last (chk_released (chk_run checker8 (chk_init checker8) (xs @ [l])
            ((False, True) # replicate (length xs + 1 + k) (True, True))))) =
           (e_error l \<or> crc_bytes crc_init (map e_data (xs @ [l])) \<noteq> crc_check)"
proof -
  have a: "k_source_error (chk_comb m st inp) =
           (e_error (sink inp) \<or> crc_error (chk_crc m) (c_regs st) (e_data (sink inp)) 0)"
    by (simp add: chk_comb_def Let_def)
  have b: "k_error (chk_comb m st inp) =
           (k_source_valid (chk_comb m st inp) \<and> k_source_last (chk_comb m st inp) \<and>
            crc_error (chk_crc m) (c_regs st) (e_data (sink inp)) 0)"
    by (simp add: chk_comb_def Let_def)
  note p = checker8_packet [OF assms, of k]
  show ?thesis by (intro conjI a b p(4) p(2) p(3))
qed

theorem checker_error_outputs_witness:
  "list_all (\<lambda>x. \<not> e_last x) (map (\<lambda>b. zero_elem\<lparr>e_data := b\<rparr>) [1, 2, 3, 4, 5 :: int]) \<and>
   e_last (zero_elem\<lparr>e_data := 6, e_last := True\<rparr>) \<and>
   4 \<le> length (map (\<lambda>b. zero_elem\<lparr>e_data := b\<rparr>) [1, 2, 3, 4, 5 :: int]) \<and>
   chk_pulse_count (chk_run checker8 (chk_init checker8)
      (map (\<lambda>b. zero_elem\<lparr>e_data := b\<rparr>) [1, 2, 3, 4, 5] @ [zero_elem\<lparr>e_data := 6, e_last := True\<rparr>])
      ((False, True) # replicate (length (map (\<lambda>b. zero_elem\<lparr>e_data := b\<rparr>) [1, 2, 3, 4, 5 :: int]) + 1 + 0) (True, True))) = 1"
proof -
  define xs where "xs = map (\<lambda>b. zero_elem\<lparr>e_data := b\<rparr>) [1, 2, 3, 4, 5 :: int]"
  define l where "l = zero_elem\<lparr>e_data := 6, e_last := True\<rparr>"
  have nl: "\<forall>x\<in>set xs. \<not> e_last x" by (simp add: xs_def zero_elem_def)
  have ll: "e_last l" by (simp add: l_def)
  have len: "4 \<le> length xs" by (simp add: xs_def)
  have d: "map e_data (xs @ [l]) = [1, 2, 3, 4, 5, 6]" by (simp add: xs_def l_def)
  have r: "crc_bytes crc_init [1, 2, 3, 4, 5, 6] \<noteq> crc_check" by code_simp
  have "chk_pulse_count (chk_run checker8 (chk_init checker8) (xs @ [l])
      ((False, True) # replicate (length xs + 1 + 0) (True, True))) = 1"
    using checker_error_outputs [OF nl ll len, of checker8 "chk_init checker8"
        "\<lparr>sink_valid = False, sink = zero_elem, source_ready = True\<rparr>" 0] r
    unfolding d by simp
  moreover have "list_all (\<lambda>x. \<not> e_last x) xs" using nl by (simp add: list_all_iff)
  ultimately show ?thesis using ll len unfolding xs_def l_def by blast
qed

text \<open>
  The \<^verbatim>\<open>error\<close> output is not a single pulse per packet with a failed residue. When the
  downstream stalls the final element of the packet 1, 2, 3, 4, 5 for one cycle, the
  output is set in two cycles. The packet 1, 2 of two elements does not have the
  residue either, and the output is set in no cycle.
\<close>

theorem checker_error_pulse_counterexample:
  "chk_pulse_count (chk_run checker8 (chk_init checker8) (packet [1, 2, 3, 4, 5])
      ((False, True) # replicate 4 (True, True) @ [(True, False), (True, True)])) = 2 \<and>
   crc_bytes crc_init [1, 2] \<noteq> crc_check \<and>
   chk_pulse_count (chk_run checker8 (chk_init checker8) (packet [1, 2])
      ((False, True) # replicate 3 (True, True))) = 0"
  by code_simp

text \<open>
  C10. The code breaks the claim for a packet of a single element. Offered after the
  RESET cycle and accepted in IDLE, it is not discarded: IDLE moves to COPY without a
  look at \<^verbatim>\<open>last\<close>, so the state machine does not return to RESET, and the element
  stays in the staging buffer. When the eight elements of the packet 1, 2, 3, 4 with
  its CRC follow, the checker releases the element 0xAA in front of 1, 2, 3, 4, with
  the error field of the final element true and the \<^verbatim>\<open>error\<close> output set: the short
  packet has produced downstream output and an error indication.
\<close>

theorem checker_single_element_packet:
  "c_fsm (chk_final checker8 (chk_init checker8) [zero_elem\<lparr>e_data := 0xAA, e_last := True\<rparr>]
      [(False, True), (True, True)]) = chk_COPY \<and>
   c_fifo (chk_final checker8 (chk_init checker8) [zero_elem\<lparr>e_data := 0xAA, e_last := True\<rparr>]
      [(False, True), (True, True)]) = [zero_elem\<lparr>e_data := 0xAA, e_last := True\<rparr>] \<and>
   map (\<lambda>x. (map_option e_data (k_source_payload x), k_source_last x, k_source_error x, k_error x))
     (chk_released (chk_run checker8 (chk_init checker8)
        [zero_elem\<lparr>e_data := 0xAA, e_last := True\<rparr>,
         zero_elem\<lparr>e_data := 1\<rparr>, zero_elem\<lparr>e_data := 2\<rparr>, zero_elem\<lparr>e_data := 3\<rparr>,
         zero_elem\<lparr>e_data := 4\<rparr>, zero_elem\<lparr>e_data := 0xCD\<rparr>, zero_elem\<lparr>e_data := 0xFB\<rparr>,
         zero_elem\<lparr>e_data := 0x3C\<rparr>, zero_elem\<lparr>e_data := 0xB6, e_last := True\<rparr>]
        ((False, True) # replicate 9 (True, True)))) =
     [(Some 0xAA, False, True, False), (Some 1, False, True, False), (Some 2, False, True, False),
      (Some 3, False, True, False), (Some 4, True, True, True)]"
proof -
  have i: "c_fsm (chk_sync checker8 (chk_init checker8) (drive_in [zero_elem\<lparr>e_data := 0xAA, e_last := True\<rparr>] (False, True))) = chk_IDLE"
    "c_fifo (chk_sync checker8 (chk_init checker8) (drive_in [zero_elem\<lparr>e_data := 0xAA, e_last := True\<rparr>] (False, True))) = []"
    by (rule chk_reset_step, simp add: chk_init_def)+
  have r: "1 \<le> chk_ratio checker8" by simp
  note s = chk_single_not_reset [OF i r, of "zero_elem\<lparr>e_data := 0xAA, e_last := True\<rparr>" True]
  have nv: "sink_valid (drive_in [zero_elem\<lparr>e_data := 0xAA, e_last := True\<rparr>] (False, True)) = False"
    by (simp add: drive_in_def)
  have a: "c_fsm (chk_final checker8 (chk_init checker8) [zero_elem\<lparr>e_data := 0xAA, e_last := True\<rparr>]
      [(False, True), (True, True)]) = chk_COPY"
    using s(1) by (simp add: chk_final.simps(2) [of _ _ _ "(False, True)"] Let_def nv
        del: chk_final.simps(2) drive_in_Cons)
  have b: "c_fifo (chk_final checker8 (chk_init checker8) [zero_elem\<lparr>e_data := 0xAA, e_last := True\<rparr>]
      [(False, True), (True, True)]) = [zero_elem\<lparr>e_data := 0xAA, e_last := True\<rparr>]"
    using s(2) by (simp add: chk_final.simps(2) [of _ _ _ "(False, True)"] Let_def nv
        del: chk_final.simps(2) drive_in_Cons)
  have c: "map (\<lambda>x. (map_option e_data (k_source_payload x), k_source_last x, k_source_error x, k_error x))
     (chk_released (chk_run checker8 (chk_init checker8)
        [zero_elem\<lparr>e_data := 0xAA, e_last := True\<rparr>,
         zero_elem\<lparr>e_data := 1\<rparr>, zero_elem\<lparr>e_data := 2\<rparr>, zero_elem\<lparr>e_data := 3\<rparr>,
         zero_elem\<lparr>e_data := 4\<rparr>, zero_elem\<lparr>e_data := 0xCD\<rparr>, zero_elem\<lparr>e_data := 0xFB\<rparr>,
         zero_elem\<lparr>e_data := 0x3C\<rparr>, zero_elem\<lparr>e_data := 0xB6, e_last := True\<rparr>]
        ((False, True) # replicate 9 (True, True)))) =
     [(Some 0xAA, False, True, False), (Some 1, False, True, False), (Some 2, False, True, False),
      (Some 3, False, True, False), (Some 4, True, True, True)]"
    by code_simp
  show ?thesis by (intro conjI a b c)
qed

end
